theory Spec2Isabelle
  imports Main "HOL-Library.Word" "HOL-Library.Multiset"
begin

section \<open>honggfuzz input corpus engine (input.c)\<close>

text \<open>
  A shallow embedding of the functions of \<^verbatim>\<open>input.c\<close>: the worker buffer's size
  (\<^verbatim>\<open>input_setSize\<close>), the seed directory scan (\<^verbatim>\<open>input_getDirStatsAndRewind\<close>), the
  stack-hash blacklist parser (\<^verbatim>\<open>input_parseBlacklist\<close>), the coverage file writer
  (\<^verbatim>\<open>input_writeCovFile\<close>), the coverage comparator (\<^verbatim>\<open>input_cmpCov\<close>), the test quota
  (\<^verbatim>\<open>input_numTests\<close>), and the dynamic corpus (\<^verbatim>\<open>input_addDynamicInput\<close>,
  \<^verbatim>\<open>input_prepareDynamicInput\<close>, \<^verbatim>\<open>input_renumerateInputs\<close>).
\<close>

subsection \<open>Machine types and failures\<close>

text \<open>
  \<^verbatim>\<open>size_t\<close> and \<^verbatim>\<open>uint64_t\<close> are 64-bit words: \<open>+\<close>, \<open>-\<close> and \<open>*\<close> wrap around as in C.
\<close>

type_synonym size_t = "64 word"
type_synonym uint64_t = "64 word"
type_synonym uint32_t = "32 word"
type_synonym uint8_t = "8 word"

text \<open>
  \<open>Fatal\<close> is the end of the process through \<^verbatim>\<open>LOG_F\<close> or \<^verbatim>\<open>PLOG_F\<close>. The other three are
  undefined behaviour of C that the source does not guard at the place where it would
  happen: an integer division by zero, a read past the end of an array, and a read
  through a null pointer.
\<close>

datatype error = Fatal | DivisionByZero | OutOfBounds | NullDeref

text \<open>\<^verbatim>\<open>PATH_MAX\<close> of \<^verbatim>\<open>limits.h\<close>, the size of every path buffer of the source (Linux).\<close>

definition PATH_MAX :: nat where
  "PATH_MAX = 4096"

subsection \<open>The data model\<close>

text \<open>
  \<^verbatim>\<open>struct dynfile_t\<close>: a corpus entry. \<^verbatim>\<open>cov\<close> is \<^verbatim>\<open>uint64_t cov[4]\<close>; the field \<^verbatim>\<open>size\<close> is
  named \<open>size_f\<close> here. The list pointers of the entry are the queue below.
\<close>

type_synonym cov_t = "uint64_t \<times> uint64_t \<times> uint64_t \<times> uint64_t"

record dynfile_t =
  size_f :: size_t
  cov :: cov_t
  idx :: size_t
  tested :: size_t
  path :: string
  data :: "uint8_t list"

text \<open>
  Modelled from the spec: the phase enumeration \<^verbatim>\<open>fuzzState_t\<close> is declared outside
  \<^verbatim>\<open>input.c\<close>. \<^verbatim>\<open>fuzz_getState\<close> returns the current phase, \<^verbatim>\<open>DYNAMIC_DRY_RUN\<close> or
  \<^verbatim>\<open>DYNAMIC_MAIN\<close>; every other value is "not main".
\<close>

datatype fuzzState_t =
  HF_STATE_UNSET | HF_STATE_STATIC | HF_STATE_DYNAMIC_DRY_RUN | HF_STATE_DYNAMIC_MAIN
  | HF_STATE_DYNAMIC_MINIMIZE

text \<open>
  The file system as far as the coverage writer sees it: the files by name, and the
  names at which creating or writing a file fails.
\<close>

record fs_t =
  fs_files :: "string \<rightharpoonup> uint8_t list"
  fs_fails :: "string \<Rightarrow> bool"

text \<open>
  \<^verbatim>\<open>honggfuzz_t\<close>, the global state, with the nested structs flattened
  (\<^verbatim>\<open>hfuzz->io.fileCnt\<close> is \<open>io_fileCnt\<close>). The tail queue \<^verbatim>\<open>io.dynfileq\<close> is the list of
  its nodes' addresses from head to tail, and \<^verbatim>\<open>io.dynfileqCurrent\<close> is a node's address
  or \<open>None\<close> for \<^verbatim>\<open>NULL\<close>. The last two fields are not members of the struct: \<open>mem\<close> is the
  memory that holds every \<^verbatim>\<open>dynfile_t\<close> allocated so far (the address of an entry is its
  position; \<^verbatim>\<open>input.c\<close> never frees one), and \<open>fs\<close> is the file system.
\<close>

type_synonym addr = nat

record honggfuzz_t =
  io_inputDir :: string
  io_outputDir :: "string option"
  io_covDirNew :: "string option"
  io_fileCnt :: size_t
  io_maxFileSz :: size_t
  io_newUnitsAdded :: size_t
  io_dynfileq :: "addr list"
  io_dynfileqCurrent :: "addr option"
  io_dynfileqCnt :: size_t
  io_dynfileqMaxSz :: size_t
  mutate_maxInputSz :: size_t
  feedback_blacklist :: "uint64_t list"
  feedback_blacklistCnt :: size_t
  feedback_state :: fuzzState_t
  cfg_minimize :: bool
  socketFuzzer_enabled :: bool
  timing_lastCovUpdate :: int
  mem :: "dynfile_t list"
  fs :: fs_t

text \<open>
  \<^verbatim>\<open>run_t\<close>, the worker's state: the logical size of its buffer, the buffer, and the
  sizes passed to \<^verbatim>\<open>ftruncate(run->dynamicFileFd, sz)\<close> so far, newest first.
\<close>

record run_t =
  dynamicFileSz :: size_t
  dynamicFile :: "uint8_t list"
  dynamicFileFd_ftruncate :: "size_t list"

text \<open>A zero-initialised global state and worker state, for concrete evaluations.\<close>

definition hfuzz_zero :: honggfuzz_t where
  "hfuzz_zero =
     \<lparr>io_inputDir = ''in'', io_outputDir = None, io_covDirNew = None, io_fileCnt = 0,
      io_maxFileSz = 0, io_newUnitsAdded = 0, io_dynfileq = [], io_dynfileqCurrent = None,
      io_dynfileqCnt = 0, io_dynfileqMaxSz = 0, mutate_maxInputSz = 0,
      feedback_blacklist = [], feedback_blacklistCnt = 0,
      feedback_state = HF_STATE_UNSET, cfg_minimize = False, socketFuzzer_enabled = False,
      timing_lastCovUpdate = 0, mem = [],
      fs = \<lparr>fs_files = Map.empty, fs_fails = (\<lambda>_. False)\<rparr>\<rparr>"

definition run_zero :: run_t where
  "run_zero = \<lparr>dynamicFileSz = 0, dynamicFile = [], dynamicFileFd_ftruncate = []\<rparr>"

subsection \<open>input_setSize\<close>

definition input_setSize :: "honggfuzz_t \<Rightarrow> run_t \<Rightarrow> size_t \<Rightarrow> error + run_t" where
  "input_setSize hfuzz run sz =
     (if dynamicFileSz run = sz then Inr run
      else if sz > mutate_maxInputSz hfuzz then Inl Fatal
      else Inr (run\<lparr>dynamicFileFd_ftruncate := sz # dynamicFileFd_ftruncate run,
                    dynamicFileSz := sz\<rparr>))"

subsection \<open>input_getDirStatsAndRewind\<close>

text \<open>
  What the operating system answers: \<^verbatim>\<open>stat\<close> fails, or names something that is not a
  regular file, or a regular file of \<^verbatim>\<open>st_size\<close> bytes; \<^verbatim>\<open>readdir\<close> returns an entry, or
  \<^verbatim>\<open>NULL\<close> with \<^verbatim>\<open>errno == EINTR\<close>, or \<^verbatim>\<open>NULL\<close> with another error. A directory is the list of
  the answers of \<^verbatim>\<open>readdir\<close> after \<^verbatim>\<open>rewinddir\<close>; the end of the list is \<^verbatim>\<open>NULL\<close> with
  \<^verbatim>\<open>errno == 0\<close>.
\<close>

datatype stat_t = StatFailed | NotRegular | Regular size_t

datatype readdir_t = Dirent string stat_t | ReaddirEINTR | ReaddirFailed

text \<open>
  The \<^verbatim>\<open>for (;;)\<close> loop: the result is whether the loop left through \<^verbatim>\<open>break\<close>
  (\<open>False\<close>: through \<^verbatim>\<open>return false\<close>), the local \<^verbatim>\<open>fileCnt\<close> and the state.
\<close>

fun getDirStats_loop ::
  "readdir_t list \<Rightarrow> size_t \<Rightarrow> honggfuzz_t \<Rightarrow> bool \<times> size_t \<times> honggfuzz_t" where
  "getDirStats_loop [] fileCnt hfuzz = (True, fileCnt, hfuzz)"
| "getDirStats_loop (ReaddirEINTR # es) fileCnt hfuzz = getDirStats_loop es fileCnt hfuzz"
| "getDirStats_loop (ReaddirFailed # es) fileCnt hfuzz = (False, fileCnt, hfuzz)"
| "getDirStats_loop (Dirent name StatFailed # es) fileCnt hfuzz =
     getDirStats_loop es fileCnt hfuzz"
| "getDirStats_loop (Dirent name NotRegular # es) fileCnt hfuzz =
     getDirStats_loop es fileCnt hfuzz"
| "getDirStats_loop (Dirent name (Regular st_size) # es) fileCnt hfuzz =
     getDirStats_loop es (fileCnt + 1)
       (if st_size > mutate_maxInputSz hfuzz then hfuzz\<lparr>mutate_maxInputSz := st_size\<rparr>
        else hfuzz)"

text \<open>
  The constants \<^verbatim>\<open>_HF_INPUT_DEFAULT_SIZE\<close> and \<^verbatim>\<open>_HF_INPUT_MAX_SIZE\<close> are defined outside
  \<^verbatim>\<open>input.c\<close>: they are the first two arguments.
\<close>

definition input_getDirStatsAndRewind ::
  "size_t \<Rightarrow> size_t \<Rightarrow> readdir_t list \<Rightarrow> honggfuzz_t \<Rightarrow> bool \<times> honggfuzz_t" where
  "input_getDirStatsAndRewind HF_INPUT_DEFAULT_SIZE HF_INPUT_MAX_SIZE dir hfuzz =
     (case getDirStats_loop dir 0 hfuzz of
        (False, fileCnt, h) \<Rightarrow> (False, h)
      | (True, fileCnt, h) \<Rightarrow>
          (let h1 = h\<lparr>io_fileCnt := fileCnt\<rparr>;
               h2 = (if io_maxFileSz h1 \<noteq> 0 then h1\<lparr>mutate_maxInputSz := io_maxFileSz h1\<rparr>
                     else if mutate_maxInputSz h1 < HF_INPUT_DEFAULT_SIZE
                       then h1\<lparr>mutate_maxInputSz := HF_INPUT_DEFAULT_SIZE\<rparr>
                     else if mutate_maxInputSz h1 > HF_INPUT_MAX_SIZE
                       then h1\<lparr>mutate_maxInputSz := HF_INPUT_MAX_SIZE\<rparr>
                     else h1)
           in (True, h2)))"

subsection \<open>input_parseBlacklist\<close>

text \<open>
  \<^verbatim>\<open>strtoull(lineptr, 0, 16)\<close> of the C library, after ISO C: white space is skipped, then
  an optional sign and an optional \<^verbatim>\<open>0x\<close> prefix, then the longest run of hexadecimal
  digits is the value (0 when there is none); a value that does not fit is
  \<^verbatim>\<open>ULLONG_MAX\<close>, and a minus sign negates the value in the unsigned type.
\<close>

definition isspace_c :: "char \<Rightarrow> bool" where
  "isspace_c c = (c \<in> set [CHR '' '', CHR 0x09, CHR 0x0A, CHR 0x0B, CHR 0x0C, CHR 0x0D])"

definition hex_val :: "char \<Rightarrow> nat option" where
  "hex_val c =
     (let n = (of_char c :: nat) in
      if 48 \<le> n \<and> n \<le> 57 then Some (n - 48)
      else if 97 \<le> n \<and> n \<le> 102 then Some (n - 87)
      else if 65 \<le> n \<and> n \<le> 70 then Some (n - 55)
      else None)"

fun strtoull_digits :: "nat \<Rightarrow> string \<Rightarrow> nat" where
  "strtoull_digits acc [] = acc"
| "strtoull_digits acc (c # cs) =
     (case hex_val c of None \<Rightarrow> acc | Some d \<Rightarrow> strtoull_digits (acc * 16 + d) cs)"

definition strtoull_sign :: "string \<Rightarrow> bool \<times> string" where
  "strtoull_sign s =
     (case s of
        [] \<Rightarrow> (False, s)
      | c # r \<Rightarrow> if c = CHR ''-'' then (True, r) else if c = CHR ''+'' then (False, r)
                 else (False, s))"

definition strtoull_prefix :: "string \<Rightarrow> string" where
  "strtoull_prefix s =
     (case s of
        z # x # d # r \<Rightarrow>
          if z = CHR ''0'' \<and> (x = CHR ''x'' \<or> x = CHR ''X'') \<and> hex_val d \<noteq> None then d # r
          else s
      | _ \<Rightarrow> s)"

definition strtoull16 :: "string \<Rightarrow> uint64_t" where
  "strtoull16 s =
     (case strtoull_sign (dropWhile isspace_c s) of
        (neg, s2) \<Rightarrow>
          (let v = strtoull_digits 0 (strtoull_prefix s2) in
           if v \<ge> 2 ^ 64 then - 1
           else if neg then - (of_nat v) else of_nat v))"

text \<open>
  The lines \<^verbatim>\<open>getline\<close> returns for a file's content, one after the other until it returns
  -1: each line with its newline, and a last line without one when the content does
  not end in a newline.
\<close>

fun getlines :: "string \<Rightarrow> string \<Rightarrow> string list" where
  "getlines cur [] = (if cur = [] then [] else [cur])"
| "getlines cur (c # cs) =
     (if c = CHR 0x0A then (cur @ [c]) # getlines [] cs else getlines (cur @ [c]) cs)"

text \<open>
  The \<^verbatim>\<open>for (;;)\<close> loop over the lines. \<open>realloc_ok n\<close> says whether \<^verbatim>\<open>util_Realloc\<close> to \<open>n\<close>
  entries succeeds. The array \<^verbatim>\<open>feedback.blacklist\<close> is the list of its first
  \<^verbatim>\<open>blacklistCnt\<close> entries. The result is \<open>Inl Fatal\<close> at \<^verbatim>\<open>LOG_F\<close>, and otherwise whether the
  loop left through \<^verbatim>\<open>break\<close> (\<open>False\<close>: through \<^verbatim>\<open>return false\<close>) and the state.
\<close>

fun parseBlacklist_loop ::
  "(nat \<Rightarrow> bool) \<Rightarrow> honggfuzz_t \<Rightarrow> string list \<Rightarrow> error + (bool \<times> honggfuzz_t)" where
  "parseBlacklist_loop realloc_ok hfuzz [] = Inr (True, hfuzz)"
| "parseBlacklist_loop realloc_ok hfuzz (lineptr # ls) =
     (let cnt = feedback_blacklistCnt hfuzz in
      if \<not> realloc_ok (unat cnt + 1) then Inr (False, hfuzz\<lparr>feedback_blacklist := []\<rparr>)
      else
        (let bl = take (unat cnt) (feedback_blacklist hfuzz) @ [strtoull16 lineptr];
             h1 = hfuzz\<lparr>feedback_blacklist := bl\<rparr>
         in if cnt > 1 \<and> bl ! (unat (cnt - 1)) > bl ! (unat cnt) then Inl Fatal
            else parseBlacklist_loop realloc_ok (h1\<lparr>feedback_blacklistCnt := cnt + 1\<rparr>) ls))"

text \<open>The file is \<open>None\<close> when \<^verbatim>\<open>fopen\<close> fails, and its content otherwise.\<close>

definition input_parseBlacklist ::
  "(nat \<Rightarrow> bool) \<Rightarrow> honggfuzz_t \<Rightarrow> string option \<Rightarrow> error + (bool \<times> honggfuzz_t)" where
  "input_parseBlacklist realloc_ok hfuzz blacklistFile =
     (case blacklistFile of
        None \<Rightarrow> Inr (False, hfuzz)
      | Some content \<Rightarrow>
          (case parseBlacklist_loop realloc_ok hfuzz (getlines [] content) of
             Inl e \<Rightarrow> Inl e
           | Inr (False, h) \<Rightarrow> Inr (False, h)
           | Inr (True, h) \<Rightarrow>
               if feedback_blacklistCnt h > 0 then Inr (True, h) else Inl Fatal))"

subsection \<open>input_writeCovFile\<close>

text \<open>
  \<^verbatim>\<open>printf\<close>'s \<^verbatim>\<open>%0<w>x\<close> for a value below \<open>16 ^ w\<close>: \<open>w\<close> lower-case hexadecimal digits,
  the most significant first. A \<^verbatim>\<open>uint64_t\<close> is below \<open>16 ^ 16\<close> and a \<^verbatim>\<open>uint32_t\<close> below
  \<open>16 ^ 8\<close>, so \<^verbatim>\<open>%016" PRIx64\<close> and \<^verbatim>\<open>%08" PRIx32\<close> never print more.
\<close>

definition hex_digit :: "nat \<Rightarrow> char" where
  "hex_digit d = ''0123456789abcdef'' ! d"

definition printf_0x :: "nat \<Rightarrow> nat \<Rightarrow> string" where
  "printf_0x w v = map (\<lambda>i. hex_digit ((v div 16 ^ i) mod 16)) (rev [0..<w])"

text \<open>
  The \<^verbatim>\<open>snprintf\<close> into \<^verbatim>\<open>char fname[PATH_MAX]\<close>: the formatted text, cut to the
  \<open>PATH_MAX - 1\<close> characters the buffer holds before its terminator. \<^verbatim>\<open>util_CRC64\<close> and
  \<^verbatim>\<open>util_CRC64Rev\<close> are defined outside \<^verbatim>\<open>input.c\<close>: they are the first two arguments,
  functions of the \<open>len\<close> bytes they read. \<^verbatim>\<open>(uint32_t)len\<close> is \<open>ucast len\<close>.
\<close>

type_synonym crc_t = "uint8_t list \<Rightarrow> uint64_t"

definition covFile_fname :: "crc_t \<Rightarrow> crc_t \<Rightarrow> string \<Rightarrow> uint8_t list \<Rightarrow> size_t \<Rightarrow> string" where
  "covFile_fname util_CRC64 util_CRC64Rev dir buf len =
     (let crc64f = util_CRC64 (take (unat len) buf);
          crc64r = util_CRC64Rev (take (unat len) buf)
      in take (PATH_MAX - 1)
           (dir @ ''/'' @ printf_0x 16 (unat crc64f) @ printf_0x 16 (unat crc64r) @ ''.''
              @ printf_0x 8 (unat (ucast len :: uint32_t)) @ ''.honggfuzz.cov''))"

text \<open>
  Modelled from the spec: \<^verbatim>\<open>files_exists\<close> and \<^verbatim>\<open>files_writeBufToFile\<close> are defined outside
  \<^verbatim>\<open>input.c\<close> (thin filesystem helpers). The first says whether a file of that name
  exists. The second, called with \<^verbatim>\<open>O_WRONLY | O_CREAT | O_EXCL | O_CLOEXEC\<close>, creates the
  file exclusively and writes the first \<open>len\<close> bytes of the buffer to it; it returns
  \<open>False\<close>, writing nothing, when the file exists or the file system refuses.
\<close>

definition files_exists :: "fs_t \<Rightarrow> string \<Rightarrow> bool" where
  "files_exists f fname = (fs_files f fname \<noteq> None)"

definition files_writeBufToFile ::
  "fs_t \<Rightarrow> string \<Rightarrow> uint8_t list \<Rightarrow> size_t \<Rightarrow> bool \<times> fs_t" where
  "files_writeBufToFile f fname buf len =
     (if fs_files f fname \<noteq> None \<or> fs_fails f fname then (False, f)
      else (True, f\<lparr>fs_files := (fs_files f)(fname \<mapsto> take (unat len) buf)\<rparr>))"

definition input_writeCovFile ::
  "crc_t \<Rightarrow> crc_t \<Rightarrow> fs_t \<Rightarrow> string \<Rightarrow> uint8_t list \<Rightarrow> size_t \<Rightarrow> bool \<times> fs_t" where
  "input_writeCovFile util_CRC64 util_CRC64Rev f dir buf len =
     (let fname = covFile_fname util_CRC64 util_CRC64Rev dir buf len in
      if files_exists f fname then (True, f)
      else
        (case files_writeBufToFile f fname buf len of
           (False, f1) \<Rightarrow> (False, f1)
         | (True, f1) \<Rightarrow> (True, f1)))"

subsection \<open>input_cmpCov and input_numTests\<close>

text \<open>
  The loop of \<^verbatim>\<open>input_cmpCov\<close> over \<^verbatim>\<open>j = 0 .. ARRAYSIZE(item1->cov) - 1\<close>, on the two arrays
  from index \<open>j\<close> on.
\<close>

fun cmpCov_loop :: "uint64_t list \<Rightarrow> uint64_t list \<Rightarrow> bool" where
  "cmpCov_loop (c1 # r1) (c2 # r2) =
     (if c1 > c2 then True else if c1 < c2 then False else cmpCov_loop r1 r2)"
| "cmpCov_loop _ _ = False"

definition cov_array :: "cov_t \<Rightarrow> uint64_t list" where
  "cov_array c = (case c of (c0, c1, c2, c3) \<Rightarrow> [c0, c1, c2, c3])"

definition input_cmpCov :: "dynfile_t \<Rightarrow> dynfile_t \<Rightarrow> bool" where
  "input_cmpCov item1 item2 = cmpCov_loop (cov_array (cov item1)) (cov_array (cov item2))"

text \<open>The table \<^verbatim>\<open>scaleMap[101]\<close> with its designated ranges.\<close>

definition scaleMap :: "size_t list" where
  "scaleMap =
     replicate 91 1 @ replicate 2 2 @ replicate 2 3 @ replicate 2 4 @ replicate 2 5
       @ replicate 2 10"

definition input_numTests :: "size_t \<Rightarrow> size_t \<Rightarrow> error + size_t" where
  "input_numTests i total_n =
     (if i > total_n then Inl Fatal
      else if total_n = 0 then Inl DivisionByZero
      else
        (let percentile = (i * 100) div total_n in
         if unat percentile < length scaleMap then Inr (scaleMap ! unat percentile)
         else Inl OutOfBounds))"

subsection \<open>The tail queue\<close>

text \<open>The macros of \<^verbatim>\<open>sys/queue.h\<close> that \<^verbatim>\<open>input.c\<close> uses, on the list of node addresses.\<close>

definition TAILQ_FIRST :: "addr list \<Rightarrow> addr option" where
  "TAILQ_FIRST q = (case q of [] \<Rightarrow> None | a # _ \<Rightarrow> Some a)"

fun TAILQ_NEXT :: "addr list \<Rightarrow> addr \<Rightarrow> addr option" where
  "TAILQ_NEXT [] elm = None"
| "TAILQ_NEXT (a # q) elm = (if a = elm then TAILQ_FIRST q else TAILQ_NEXT q elm)"

definition TAILQ_INSERT_HEAD :: "addr list \<Rightarrow> addr \<Rightarrow> addr list" where
  "TAILQ_INSERT_HEAD q elm = elm # q"

definition TAILQ_INSERT_TAIL :: "addr list \<Rightarrow> addr \<Rightarrow> addr list" where
  "TAILQ_INSERT_TAIL q elm = q @ [elm]"

fun TAILQ_INSERT_BEFORE :: "addr list \<Rightarrow> addr \<Rightarrow> addr \<Rightarrow> addr list" where
  "TAILQ_INSERT_BEFORE [] listelm elm = []"
| "TAILQ_INSERT_BEFORE (a # q) listelm elm =
     (if a = listelm then elm # a # q else a # TAILQ_INSERT_BEFORE q listelm elm)"

subsection \<open>input_addDynamicInput\<close>

text \<open>
  Modelled from the spec: \<^verbatim>\<open>fuzz_getState\<close> is defined outside \<^verbatim>\<open>input.c\<close>; it returns the
  current phase.
\<close>

definition fuzz_getState :: "honggfuzz_t \<Rightarrow> fuzzState_t" where
  "fuzz_getState hfuzz = feedback_state hfuzz"

text \<open>
  The loop \<^verbatim>\<open>TAILQ_FOREACH_HF(iter, &hfuzz->io.dynfileq, pointers)\<close> of the sorted
  insertion: the node at which the loop stops through \<^verbatim>\<open>break\<close>, or \<open>None\<close> when it runs
  to the end and leaves \<^verbatim>\<open>iter == NULL\<close>.
\<close>

fun addDynamicInput_iter :: "dynfile_t list \<Rightarrow> dynfile_t \<Rightarrow> addr list \<Rightarrow> addr option" where
  "addDynamicInput_iter m dynfile [] = None"
| "addDynamicInput_iter m dynfile (iter # q) =
     (if input_cmpCov dynfile (m ! iter) then Some iter
      else addDynamicInput_iter m dynfile q)"

text \<open>
  \<open>now\<close> is the value of \<^verbatim>\<open>time(NULL)\<close>. \<^verbatim>\<open>util_Malloc\<close> returns the address of a fresh
  object: the first position after everything allocated so far. \<^verbatim>\<open>memcpy\<close> copies the
  first \<open>len\<close> bytes of the buffer, and \<^verbatim>\<open>snprintf\<close> the path cut to the size of
  \<^verbatim>\<open>dynfile->path\<close>. A failure to save a file is only logged.
\<close>

definition input_addDynamicInput ::
  "crc_t \<Rightarrow> crc_t \<Rightarrow> int \<Rightarrow> honggfuzz_t \<Rightarrow> uint8_t list \<Rightarrow> size_t \<Rightarrow> cov_t \<Rightarrow> string
     \<Rightarrow> honggfuzz_t" where
  "input_addDynamicInput util_CRC64 util_CRC64Rev now hfuzz buf len cv pth =
     (let h1 = hfuzz\<lparr>timing_lastCovUpdate := now\<rparr>;
          p = length (mem h1);
          dynfile = \<lparr>size_f = len, cov = cv, idx = io_dynfileqCnt h1, tested = 0,
                     path = take (PATH_MAX - 1) pth, data = take (unat len) buf\<rparr>;
          h2 = h1\<lparr>mem := mem h1 @ [dynfile]\<rparr>;
          h3 = (if fuzz_getState h2 = HF_STATE_DYNAMIC_MAIN then
                  (let q = TAILQ_INSERT_HEAD (io_dynfileq h2) p in
                   h2\<lparr>io_dynfileq := q, io_dynfileqCurrent := TAILQ_FIRST q\<rparr>)
                else
                  (case addDynamicInput_iter (mem h2) dynfile (io_dynfileq h2) of
                     Some iter \<Rightarrow>
                       h2\<lparr>io_dynfileq := TAILQ_INSERT_BEFORE (io_dynfileq h2) iter p\<rparr>
                   | None \<Rightarrow> h2\<lparr>io_dynfileq := TAILQ_INSERT_TAIL (io_dynfileq h2) p\<rparr>));
          h4 = h3\<lparr>io_dynfileqCnt := io_dynfileqCnt h3 + 1,
                  io_dynfileqMaxSz := max (io_dynfileqMaxSz h3) len\<rparr>
      in if socketFuzzer_enabled h4 then h4
         else if cfg_minimize h4 then h4
         else
           (let outDir = (case io_outputDir h4 of Some d \<Rightarrow> d | None \<Rightarrow> io_inputDir h4);
                h5 = h4\<lparr>fs := snd (input_writeCovFile util_CRC64 util_CRC64Rev (fs h4)
                                      outDir buf len)\<rparr>
            in if fuzz_getState h5 \<noteq> HF_STATE_DYNAMIC_MAIN then h5
               else
                 (let h6 = h5\<lparr>io_newUnitsAdded := io_newUnitsAdded h5 + 1\<rparr> in
                  case io_covDirNew h6 of
                    None \<Rightarrow> h6
                  | Some d \<Rightarrow>
                      h6\<lparr>fs := snd (input_writeCovFile util_CRC64 util_CRC64Rev (fs h6)
                                      d buf len)\<rparr>)))"

text \<open>A sequence of calls, each with its time, buffer, length, coverage and path.\<close>

type_synonym add_args = "int \<times> uint8_t list \<times> size_t \<times> cov_t \<times> string"

fun addDynamicInputs :: "crc_t \<Rightarrow> crc_t \<Rightarrow> honggfuzz_t \<Rightarrow> add_args list \<Rightarrow> honggfuzz_t" where
  "addDynamicInputs util_CRC64 util_CRC64Rev hfuzz [] = hfuzz"
| "addDynamicInputs util_CRC64 util_CRC64Rev hfuzz ((now, buf, len, cv, pth) # calls) =
     addDynamicInputs util_CRC64 util_CRC64Rev
       (input_addDynamicInput util_CRC64 util_CRC64Rev now hfuzz buf len cv pth) calls"

subsection \<open>input_prepareDynamicInput\<close>

text \<open>
  \<^verbatim>\<open>mangle_mangleContent\<close> is defined outside \<^verbatim>\<open>input.c\<close>: it is the first argument, a
  function that rewrites the worker's state. The result is \<open>Inl\<close> where the process ends
  or the behaviour is undefined, and the two states where the function returns \<^verbatim>\<open>true\<close>.
\<close>

definition input_prepareDynamicInput ::
  "(run_t \<Rightarrow> run_t) \<Rightarrow> honggfuzz_t \<Rightarrow> run_t \<Rightarrow> bool \<Rightarrow> error + (honggfuzz_t \<times> run_t)" where
  "input_prepareDynamicInput mangle_mangleContent hfuzz run needs_mangle =
     (if io_dynfileqCnt hfuzz = 0 then Inl Fatal
      else
        (let h1 = (if io_dynfileqCurrent hfuzz = None
                   then hfuzz\<lparr>io_dynfileqCurrent := TAILQ_FIRST (io_dynfileq hfuzz)\<rparr>
                   else hfuzz)
         in case io_dynfileqCurrent h1 of
              None \<Rightarrow> Inl NullDeref
            | Some current \<Rightarrow>
                (case input_numTests (idx (mem h1 ! current)) (io_dynfileqCnt h1) of
                   Inl e \<Rightarrow> Inl e
                 | Inr testCnt \<Rightarrow>
                     (let h2 = h1\<lparr>mem := (mem h1)[current :=
                                  (mem h1 ! current)\<lparr>tested := tested (mem h1 ! current) + 1\<rparr>]\<rparr>;
                          h3 = (if tested (mem h2 ! current) \<ge> testCnt
                                then h2\<lparr>mem := (mem h2)[current :=
                                          (mem h2 ! current)\<lparr>tested := 0\<rparr>],
                                        io_dynfileqCurrent :=
                                          TAILQ_NEXT (io_dynfileq h2) current\<rparr>
                                else h2);
                          cur = mem h3 ! current
                      in case input_setSize h3 run (size_f cur) of
                           Inl e \<Rightarrow> Inl e
                         | Inr r1 \<Rightarrow>
                             (let r2 = r1\<lparr>dynamicFile :=
                                    take (unat (size_f cur)) (data cur)
                                      @ drop (unat (size_f cur)) (dynamicFile r1)\<rparr>
                              in Inr (h3, if needs_mangle then mangle_mangleContent r2
                                          else r2))))))"

text \<open>Consecutive serial calls by one worker, one for each \<^verbatim>\<open>needs_mangle\<close> of the list.\<close>

fun prepareDynamicInputs ::
  "(run_t \<Rightarrow> run_t) \<Rightarrow> honggfuzz_t \<Rightarrow> run_t \<Rightarrow> bool list \<Rightarrow> error + (honggfuzz_t \<times> run_t)" where
  "prepareDynamicInputs mangle_mangleContent hfuzz run [] = Inr (hfuzz, run)"
| "prepareDynamicInputs mangle_mangleContent hfuzz run (needs_mangle # calls) =
     (case input_prepareDynamicInput mangle_mangleContent hfuzz run needs_mangle of
        Inl e \<Rightarrow> Inl e
      | Inr (h, r) \<Rightarrow> prepareDynamicInputs mangle_mangleContent h r calls)"

subsection \<open>input_renumerateInputs\<close>

text \<open>The loop over the queue with the local \<^verbatim>\<open>idx\<close>: \<^verbatim>\<open>iter->idx = idx--\<close>.\<close>

fun renumerateInputs_loop :: "addr list \<Rightarrow> size_t \<Rightarrow> dynfile_t list \<Rightarrow> dynfile_t list" where
  "renumerateInputs_loop [] i m = m"
| "renumerateInputs_loop (iter # q) i m =
     renumerateInputs_loop q (i - 1) (m[iter := (m ! iter)\<lparr>idx := i\<rparr>])"

definition input_renumerateInputs :: "honggfuzz_t \<Rightarrow> honggfuzz_t" where
  "input_renumerateInputs hfuzz =
     hfuzz\<lparr>mem := renumerateInputs_loop (io_dynfileq hfuzz) (io_dynfileqCnt hfuzz) (mem hfuzz)\<rparr>"

subsection \<open>Definitions that follow the specification's words\<close>

text \<open>
  The quota table as the specification gives it (section 4.3), by ranges of the
  percentile: 0-90 gives 1, 91-92 gives 2, 93-94 gives 3, 95-96 gives 4, 97-98 gives 5,
  99-100 gives 10. It is compared with \<open>scaleMap\<close> of the source below.
\<close>

definition testQuota_table :: "nat \<Rightarrow> size_t" where
  "testQuota_table p =
     (if p \<le> 90 then 1 else if p \<le> 92 then 2 else if p \<le> 94 then 3
      else if p \<le> 96 then 4 else if p \<le> 98 then 5 else 10)"

text \<open>
  The comparator as the specification words it (section 4.2): scan \<^verbatim>\<open>cov[0..3]\<close>; the
  first index at which the tuples differ decides, and the first tuple is greater when
  its element there is; equal tuples compare as not greater.
\<close>

definition cmpCov_lex :: "cov_t \<Rightarrow> cov_t \<Rightarrow> bool" where
  "cmpCov_lex a b =
     list_ex (\<lambda>j. take j (cov_array a) = take j (cov_array b) \<and> cov_array a ! j > cov_array b ! j)
       [0..<4]"

text \<open>
  The sizes of the regular files that a scan observes, in directory order, and the
  clamp into \<open>[lo, hi]\<close> as the specification words the end of the scan (section 4.1).
\<close>

fun regular_sizes :: "readdir_t list \<Rightarrow> size_t list" where
  "regular_sizes [] = []"
| "regular_sizes (Dirent name (Regular st_size) # es) = st_size # regular_sizes es"
| "regular_sizes (e # es) = regular_sizes es"

definition clamp_size :: "size_t \<Rightarrow> size_t \<Rightarrow> size_t \<Rightarrow> size_t" where
  "clamp_size lo hi x = (if x < lo then lo else if x > hi then hi else x)"

subsection \<open>Well-formed queues\<close>

text \<open>
  The nodes of a tail queue are distinct allocated objects: no address is linked twice,
  and every address of the queue is the address of an entry in memory.
\<close>

definition valid_dynfileq :: "honggfuzz_t \<Rightarrow> bool" where
  "valid_dynfileq hfuzz =
     (distinct (io_dynfileq hfuzz)
      \<and> list_all (\<lambda>a. a < length (mem hfuzz)) (io_dynfileq hfuzz))"

text \<open>The entries of the queue, and their \<^verbatim>\<open>idx\<close> values, from head to tail.\<close>

definition dynfileq_entries :: "honggfuzz_t \<Rightarrow> dynfile_t list" where
  "dynfileq_entries hfuzz = map (\<lambda>a. mem hfuzz ! a) (io_dynfileq hfuzz)"

definition dynfileq_idx :: "honggfuzz_t \<Rightarrow> nat list" where
  "dynfileq_idx hfuzz = map (\<lambda>d. unat (idx d)) (dynfileq_entries hfuzz)"

text \<open>
  The queue is coverage-sorted: for every adjacent pair \<open>(a, b)\<close> of entries from head to
  tail, \<open>input_cmpCov b a\<close> is false.
\<close>

definition cov_sorted :: "honggfuzz_t \<Rightarrow> bool" where
  "cov_sorted hfuzz = successively (\<lambda>a b. \<not> input_cmpCov b a) (dynfileq_entries hfuzz)"

text \<open>The entry that \<^verbatim>\<open>input_addDynamicInput\<close> allocates and fills before it takes the lock.\<close>

definition addDynamicInput_dynfile ::
  "honggfuzz_t \<Rightarrow> uint8_t list \<Rightarrow> size_t \<Rightarrow> cov_t \<Rightarrow> string \<Rightarrow> dynfile_t" where
  "addDynamicInput_dynfile hfuzz buf len cv pth =
     \<lparr>size_f = len, cov = cv, idx = io_dynfileqCnt hfuzz, tested = 0,
      path = take (PATH_MAX - 1) pth, data = take (unat len) buf\<rparr>"

text \<open>
  The queue after the sorted insertion of \<^verbatim>\<open>input_addDynamicInput\<close> (the branch taken
  outside the main phase) of the node at address \<open>p\<close> holding \<open>dynfile\<close>.
\<close>

definition addDynamicInput_sorted ::
  "dynfile_t list \<Rightarrow> dynfile_t \<Rightarrow> addr list \<Rightarrow> addr \<Rightarrow> addr list" where
  "addDynamicInput_sorted m dynfile q p =
     (case addDynamicInput_iter m dynfile q of
        Some iter \<Rightarrow> TAILQ_INSERT_BEFORE q iter p
      | None \<Rightarrow> TAILQ_INSERT_TAIL q p)"

subsection \<open>Concrete states\<close>

text \<open>An entry with every field zero, for concrete evaluations.\<close>

definition dynfile_zero :: dynfile_t where
  "dynfile_zero = \<lparr>size_f = 0, cov = (0, 0, 0, 0), idx = 0, tested = 0, path = [], data = []\<rparr>"

text \<open>
  For concrete evaluations: a stand-in for the two CRC functions, a state in the dry-run
  phase with an empty corpus, and four calls with the coverage tuples \<open>(1,0,0,0)\<close>,
  \<open>(3,0,0,0)\<close>, \<open>(2,5,0,0)\<close> and \<open>(2,4,0,0)\<close>.
\<close>

definition crc_zero :: crc_t where
  "crc_zero buf = 0"

definition hfuzz_dry_run :: honggfuzz_t where
  "hfuzz_dry_run = hfuzz_zero\<lparr>feedback_state := HF_STATE_DYNAMIC_DRY_RUN\<rparr>"

definition four_calls :: "add_args list" where
  "four_calls =
     [(0, [], 0, (1, 0, 0, 0), ''a''), (0, [], 0, (3, 0, 0, 0), ''b''),
      (0, [], 0, (2, 5, 0, 0), ''c''), (0, [], 0, (2, 4, 0, 0), ''d'')]"

text \<open>
  For concrete evaluations: a corpus with the count 100 whose queue holds two entries,
  the head with \<open>idx = 100\<close> (percentile 100) and the tail with \<open>idx = 50\<close> (percentile 50).
\<close>

definition hfuzz_quota :: honggfuzz_t where
  "hfuzz_quota =
     hfuzz_zero\<lparr>mem := [dynfile_zero\<lparr>idx := 100\<rparr>, dynfile_zero\<lparr>idx := 50\<rparr>],
                io_dynfileq := [0, 1], io_dynfileqCnt := 100\<rparr>"

text \<open>For concrete evaluations: a directory of three regular files of 10, 200 and 5000 bytes.\<close>

definition three_seeds :: "readdir_t list" where
  "three_seeds =
     [Dirent ''a'' (Regular 10), Dirent ''b'' (Regular 200), Dirent ''c'' (Regular 5000)]"

section \<open>Verified properties\<close>

subsection \<open>The test quota\<close>

lemma length_scaleMap: "length scaleMap = 101"
  by (simp add: scaleMap_def)

lemma scaleMap_nth: "p \<le> 100 \<Longrightarrow> scaleMap ! p = testQuota_table p"
  by (auto simp add: scaleMap_def testQuota_table_def nth_append)

text \<open>
  The product \<open>i * 100\<close> is computed in \<^verbatim>\<open>size_t\<close> and may wrap around; the quotient is
  at most 100 all the same, since wrapping only makes the dividend smaller.
\<close>

lemma percentile_le:
  fixes i total_n :: size_t
  assumes "total_n \<noteq> 0" and "i \<le> total_n"
  shows "unat ((i * 100) div total_n) \<le> 100"
proof -
  have t: "0 < unat total_n" using assms(1) by (simp add: unat_gt_0)
  have "unat (i * 100) \<le> unat i * 100"
    by (simp add: unat_word_ariths)
  also have "\<dots> \<le> unat total_n * 100"
    using assms(2) by (simp add: word_le_nat_alt)
  finally have "unat (i * 100) div unat total_n \<le> (unat total_n * 100) div unat total_n"
    by (rule div_le_mono)
  also have "\<dots> = 100" using t by simp
  finally show ?thesis by (simp add: unat_div)
qed

lemma percentile_exact:
  fixes i total_n :: size_t
  assumes "unat i * 100 < 2 ^ 64"
  shows "unat ((i * 100) div total_n) = (unat i * 100) div unat total_n"
  using assms by (simp add: unat_div unat_word_ariths)

lemma input_numTests_ok:
  assumes "total_n \<noteq> 0" and "i \<le> total_n"
  shows "input_numTests i total_n = Inr (testQuota_table (unat ((i * 100) div total_n)))"
  using percentile_le [OF assms] assms
  by (simp add: input_numTests_def Let_def length_scaleMap scaleMap_nth not_less [symmetric])

text \<open>
  Claim C4. For every \<open>i\<close> (the entry's \<^verbatim>\<open>idx\<close>) and count \<open>total_n\<close> with \<open>1 \<le> total_n\<close>
  and \<open>i \<le> total_n\<close>, \<open>input_numTests\<close> returns the specification's table value at the
  percentile \<open>(i * 100) div total_n\<close>, which is at most 100: 1 for 0-90, 2 for 91-92, 3 for
  93-94, 4 for 95-96, 5 for 97-98 and 10 for 99-100. The percentile is computed in
  \<^verbatim>\<open>size_t\<close> as the source does; where \<open>i * 100\<close> is below \<open>2 ^ 64\<close> it is the quotient of
  the natural numbers. For \<open>i > total_n\<close> the call is fatal.
\<close>

theorem input_numTests_table:
  "(1 \<le> total_n \<and> i \<le> total_n \<longrightarrow>
      unat ((i * 100) div total_n) \<le> 100
      \<and> input_numTests i total_n = Inr (testQuota_table (unat ((i * 100) div total_n))))
   \<and> (1 \<le> total_n \<and> i \<le> total_n \<and> unat i * 100 < 2 ^ 64 \<longrightarrow>
        unat ((i * 100) div total_n) = (unat i * 100) div unat total_n)
   \<and> (i > total_n \<longrightarrow> input_numTests i total_n = Inl Fatal)"
proof (intro conjI impI)
  assume a: "1 \<le> total_n \<and> i \<le> total_n"
  then have nz: "total_n \<noteq> 0" by auto
  show "unat ((i * 100) div total_n) \<le> 100"
    using percentile_le nz a by blast
  show "input_numTests i total_n = Inr (testQuota_table (unat ((i * 100) div total_n)))"
    using input_numTests_ok nz a by blast
next
  assume "1 \<le> total_n \<and> i \<le> total_n \<and> unat i * 100 < 2 ^ 64"
  then show "unat ((i * 100) div total_n) = (unat i * 100) div unat total_n"
    using percentile_exact by blast
next
  assume "i > total_n"
  then show "input_numTests i total_n = Inl Fatal"
    by (simp add: input_numTests_def)
qed

theorem input_numTests_table_witness:
  "(1::size_t) \<le> 100 \<and> (100::size_t) \<le> 100 \<and> input_numTests 100 100 = Inr 10
   \<and> (1::size_t) \<le> 100 \<and> (50::size_t) \<le> 100 \<and> input_numTests 50 100 = Inr 1
   \<and> (3::size_t) < 5 \<and> input_numTests 5 3 = Inl Fatal"
  using input_numTests_table [of 100 100] input_numTests_table [of 100 50]
    input_numTests_table [of 3 5]
  by (simp add: testQuota_table_def)

lemma input_numTests_in_bounds:
  fixes i total_n :: size_t
  assumes "total_n \<noteq> 0" and "i \<le> total_n"
  shows "unat ((i * 100) div total_n) < length scaleMap"
  using percentile_le [OF assms] by (simp add: length_scaleMap)

lemma input_numTests_error:
  assumes "input_numTests i total_n = Inl e" and "total_n \<noteq> 0"
  shows "e = Fatal"
proof (cases "i > total_n")
  case True
  then show ?thesis using assms(1) by (simp add: input_numTests_def)
next
  case False
  then have "i \<le> total_n" by simp
  then show ?thesis
    using assms input_numTests_ok [of total_n i] by simp
qed

lemma input_setSize_error: "input_setSize hfuzz run sz = Inl e \<Longrightarrow> e = Fatal"
  by (simp add: input_setSize_def split: if_splits)

lemma input_prepareDynamicInput_error:
  assumes "input_prepareDynamicInput mangle_mangleContent hfuzz run needs_mangle = Inl e"
  shows "e = Fatal \<or> e = NullDeref"
proof (cases "io_dynfileqCnt hfuzz = 0")
  case True
  then show ?thesis using assms by (simp add: input_prepareDynamicInput_def)
next
  case False
  then show ?thesis
    using assms
    by (auto simp add: input_prepareDynamicInput_def Let_def
        split: if_splits option.splits sum.splits
        dest: input_numTests_error input_setSize_error)
qed

text \<open>
  Claim C10. \<open>input_numTests\<close> is total under its callers' preconditions. With a count
  other than 0 and \<open>i\<close> at most the count, the percentile is inside the 101-entry table
  \<open>scaleMap\<close> and the call returns the table's entry; with a count other than 0 the call
  never divides by zero and never reads outside the table. With both arguments 0 the
  guard \<open>i > total_n\<close> does not fire and the division by zero is reached. The caller
  \<open>input_prepareDynamicInput\<close> is fatal on an empty corpus before it computes the quota,
  so it never divides by zero and never reads outside the table.
\<close>

theorem input_numTests_total:
  "(total_n \<noteq> 0 \<and> i \<le> total_n \<longrightarrow>
      unat ((i * 100) div total_n) < length scaleMap
      \<and> input_numTests i total_n = Inr (scaleMap ! unat ((i * 100) div total_n)))
   \<and> (total_n \<noteq> 0 \<longrightarrow>
        input_numTests i total_n \<noteq> Inl DivisionByZero
        \<and> input_numTests i total_n \<noteq> Inl OutOfBounds)
   \<and> input_numTests 0 0 = Inl DivisionByZero
   \<and> (io_dynfileqCnt hfuzz = 0 \<longrightarrow>
        input_prepareDynamicInput mangle_mangleContent hfuzz run needs_mangle = Inl Fatal)
   \<and> input_prepareDynamicInput mangle_mangleContent hfuzz run needs_mangle
        \<noteq> Inl DivisionByZero
   \<and> input_prepareDynamicInput mangle_mangleContent hfuzz run needs_mangle
        \<noteq> Inl OutOfBounds"
proof (intro conjI impI)
  assume a: "total_n \<noteq> 0 \<and> i \<le> total_n"
  then show b: "unat ((i * 100) div total_n) < length scaleMap"
    using input_numTests_in_bounds by blast
  show "input_numTests i total_n = Inr (scaleMap ! unat ((i * 100) div total_n))"
    using a b by (simp add: input_numTests_def Let_def not_less [symmetric])
next
  assume "total_n \<noteq> 0"
  then show "input_numTests i total_n \<noteq> Inl DivisionByZero"
    using input_numTests_error by fastforce
next
  assume "total_n \<noteq> 0"
  then show "input_numTests i total_n \<noteq> Inl OutOfBounds"
    using input_numTests_error by fastforce
next
  show "input_numTests 0 0 = Inl DivisionByZero"
    by (simp add: input_numTests_def)
next
  assume "io_dynfileqCnt hfuzz = 0"
  then show "input_prepareDynamicInput mangle_mangleContent hfuzz run needs_mangle = Inl Fatal"
    by (simp add: input_prepareDynamicInput_def)
next
  show "input_prepareDynamicInput mangle_mangleContent hfuzz run needs_mangle
          \<noteq> Inl DivisionByZero"
    using input_prepareDynamicInput_error by fastforce
next
  show "input_prepareDynamicInput mangle_mangleContent hfuzz run needs_mangle
          \<noteq> Inl OutOfBounds"
    using input_prepareDynamicInput_error by fastforce
qed

theorem input_numTests_total_witness:
  "(7::size_t) \<noteq> 0 \<and> (7::size_t) \<le> 7 \<and> unat (((7::size_t) * 100) div 7) < length scaleMap
   \<and> input_numTests 7 7 = Inr 10
   \<and> io_dynfileqCnt hfuzz_zero = 0
   \<and> input_prepareDynamicInput id hfuzz_zero run_zero False = Inl Fatal"
  using input_numTests_total [of 7 7 hfuzz_zero id run_zero False]
  by (simp add: hfuzz_zero_def length_scaleMap scaleMap_nth testQuota_table_def)

subsection \<open>The worker buffer's size\<close>

text \<open>
  Claim C9, as stated, fails: the source tests \<^verbatim>\<open>run->dynamicFileSz == sz\<close> first and
  returns, so a size above \<^verbatim>\<open>maxInputSz\<close> that is already the buffer's size is accepted.
\<close>

theorem input_setSize_counterexample:
  "mutate_maxInputSz (hfuzz_zero\<lparr>mutate_maxInputSz := 50\<rparr>) < 100
   \<and> input_setSize (hfuzz_zero\<lparr>mutate_maxInputSz := 50\<rparr>)
        (run_zero\<lparr>dynamicFileSz := 100\<rparr>) 100 \<noteq> Inl Fatal"
  by (simp add: input_setSize_def hfuzz_zero_def run_zero_def)

text \<open>
  Claim C9, amended. For every state and every size \<open>sz \<le> maxInputSz\<close>, \<open>input_setSize\<close>
  returns a worker state whose \<open>dynamicFileSz\<close> is \<open>sz\<close>, and the same call on that state
  changes nothing (no \<^verbatim>\<open>ftruncate\<close>, no assignment). A call with the buffer's present
  size changes nothing whatever \<open>maxInputSz\<close> is. For \<open>sz > maxInputSz\<close> other than
  the buffer's present size the call is fatal.
\<close>

theorem input_setSize_contract:
  "(sz \<le> mutate_maxInputSz hfuzz \<longrightarrow>
      (\<exists>run'. input_setSize hfuzz run sz = Inr run' \<and> dynamicFileSz run' = sz
         \<and> input_setSize hfuzz run' sz = Inr run'))
   \<and> (dynamicFileSz run = sz \<longrightarrow> input_setSize hfuzz run sz = Inr run)
   \<and> (sz > mutate_maxInputSz hfuzz \<and> dynamicFileSz run \<noteq> sz \<longrightarrow>
        input_setSize hfuzz run sz = Inl Fatal)"
  by (auto simp add: input_setSize_def)

theorem input_setSize_contract_witness:
  "(10::size_t) \<le> mutate_maxInputSz (hfuzz_zero\<lparr>mutate_maxInputSz := 50\<rparr>)
   \<and> (\<exists>run'. input_setSize (hfuzz_zero\<lparr>mutate_maxInputSz := 50\<rparr>) run_zero 10 = Inr run'
         \<and> dynamicFileSz run' = 10
         \<and> input_setSize (hfuzz_zero\<lparr>mutate_maxInputSz := 50\<rparr>) run' 10 = Inr run')
   \<and> (60::size_t) > mutate_maxInputSz (hfuzz_zero\<lparr>mutate_maxInputSz := 50\<rparr>)
   \<and> dynamicFileSz run_zero \<noteq> 60
   \<and> input_setSize (hfuzz_zero\<lparr>mutate_maxInputSz := 50\<rparr>) run_zero 60 = Inl Fatal"
  using input_setSize_contract [of 10 "hfuzz_zero\<lparr>mutate_maxInputSz := 50\<rparr>" run_zero]
    input_setSize_contract [of 60 "hfuzz_zero\<lparr>mutate_maxInputSz := 50\<rparr>" run_zero]
  by (simp add: hfuzz_zero_def run_zero_def)

subsection \<open>Renumeration\<close>

lemma renumerateInputs_loop_length: "length (renumerateInputs_loop q i m) = length m"
  by (induction q arbitrary: i m) simp_all

lemma renumerateInputs_loop_frame:
  "a \<notin> set q \<Longrightarrow> renumerateInputs_loop q i m ! a = m ! a"
  by (induction q arbitrary: i m) simp_all

lemma upt_shift: "map (\<lambda>k. n - Suc k) [0..<l] = map (\<lambda>k. n - k) [Suc 0..<Suc l]"
proof -
  have "map (\<lambda>k. n - k) [Suc 0..<Suc l] = map (\<lambda>k. n - k) (map Suc [0..<l])"
    by (simp only: map_Suc_upt)
  then show ?thesis by (simp add: comp_def)
qed

lemma renumerateInputs_loop_idx:
  assumes "distinct q" and "\<forall>a \<in> set q. a < length m" and "length q \<le> unat i"
  shows "map (\<lambda>a. unat (idx (renumerateInputs_loop q i m ! a))) q
           = map (\<lambda>k. unat i - k) [0..<length q]"
  using assms
proof (induction q arbitrary: i m)
  case Nil
  then show ?case by simp
next
  case (Cons a q)
  let ?m = "m[a := (m ! a)\<lparr>idx := i\<rparr>]"
  have pos: "0 < unat i" using Cons.prems(3) by simp
  then have i1: "unat (i - 1) = unat i - 1"
    by (simp add: unat_minus_one unat_gt_0)
  have hd: "unat (idx (renumerateInputs_loop q (i - 1) ?m ! a)) = unat i"
    using Cons.prems(1,2) by (simp add: renumerateInputs_loop_frame)
  have "map (\<lambda>b. unat (idx (renumerateInputs_loop q (i - 1) ?m ! b))) q
          = map (\<lambda>k. unat (i - 1) - k) [0..<length q]"
    using Cons.prems i1 by (intro Cons.IH) auto
  also have "\<dots> = map (\<lambda>k. unat i - Suc k) [0..<length q]"
    by (simp add: i1)
  also have "\<dots> = map (\<lambda>k. unat i - k) [Suc 0..<Suc (length q)]"
    by (rule upt_shift)
  finally have tl: "map (\<lambda>b. unat (idx (renumerateInputs_loop q (i - 1) ?m ! b))) q
          = map (\<lambda>k. unat i - k) [Suc 0..<Suc (length q)]" .
  have "[0..<Suc (length q)] = 0 # [Suc 0..<Suc (length q)]"
    by (rule upt_conv_Cons) simp
  then show ?case using hd tl by (simp del: upt_Suc)
qed

lemma countdown_rev: "map (\<lambda>k. n - k) [0..<n] = rev [1..<Suc n]"
  by (rule nth_equalityI) (auto simp add: rev_nth simp del: upt_Suc)

lemma dynfileq_idx_renumerate:
  assumes "valid_dynfileq hfuzz"
    and "length (io_dynfileq hfuzz) = unat (io_dynfileqCnt hfuzz)"
  shows "dynfileq_idx (input_renumerateInputs hfuzz)
           = rev [1..<Suc (unat (io_dynfileqCnt hfuzz))]"
proof -
  have "dynfileq_idx (input_renumerateInputs hfuzz)
          = map (\<lambda>a. unat (idx (renumerateInputs_loop (io_dynfileq hfuzz)
                  (io_dynfileqCnt hfuzz) (mem hfuzz) ! a))) (io_dynfileq hfuzz)"
    by (simp add: dynfileq_idx_def dynfileq_entries_def input_renumerateInputs_def comp_def)
  also have "\<dots> = map (\<lambda>k. unat (io_dynfileqCnt hfuzz) - k) [0..<length (io_dynfileq hfuzz)]"
    using assms
    by (intro renumerateInputs_loop_idx) (auto simp add: valid_dynfileq_def list_all_iff)
  also have "\<dots> = rev [1..<Suc (unat (io_dynfileqCnt hfuzz))]"
    using assms(2) countdown_rev by simp
  finally show ?thesis .
qed

text \<open>
  Claim C5. After \<open>input_renumerateInputs\<close> on a corpus of \<open>count\<close> entries (a well-formed
  queue whose length is \<^verbatim>\<open>dynfileqCnt\<close>), the queue is the same and its entries hold the
  \<^verbatim>\<open>idx\<close> values \<open>count, count - 1, ..., 1\<close> from head to tail; hence the multiset of the
  values is \<open>{1, ..., count}\<close> and the values decrease strictly from head to tail.
\<close>

theorem input_renumerateInputs_idx:
  assumes "valid_dynfileq hfuzz"
    and "length (io_dynfileq hfuzz) = unat (io_dynfileqCnt hfuzz)"
  shows "io_dynfileq (input_renumerateInputs hfuzz) = io_dynfileq hfuzz
    \<and> dynfileq_idx (input_renumerateInputs hfuzz) = rev [1..<Suc (unat (io_dynfileqCnt hfuzz))]
    \<and> mset (dynfileq_idx (input_renumerateInputs hfuzz))
        = mset [1..<Suc (unat (io_dynfileqCnt hfuzz))]
    \<and> sorted_wrt (\<lambda>x y. x > y) (dynfileq_idx (input_renumerateInputs hfuzz))"
proof -
  have e: "dynfileq_idx (input_renumerateInputs hfuzz)
             = rev [1..<Suc (unat (io_dynfileqCnt hfuzz))]"
    using assms by (rule dynfileq_idx_renumerate)
  have s: "sorted_wrt (\<lambda>x y. x > y) (rev [1..<Suc (unat (io_dynfileqCnt hfuzz))])"
    by (simp add: sorted_wrt_rev del: upt_Suc)
  show ?thesis
    using e s by (simp add: input_renumerateInputs_def del: upt_Suc)
qed

theorem input_renumerateInputs_idx_witness:
  "valid_dynfileq (hfuzz_zero\<lparr>mem := [dynfile_zero, dynfile_zero, dynfile_zero],
      io_dynfileq := [2, 0, 1], io_dynfileqCnt := 3\<rparr>)
   \<and> length (io_dynfileq (hfuzz_zero\<lparr>mem := [dynfile_zero, dynfile_zero, dynfile_zero],
      io_dynfileq := [2, 0, 1], io_dynfileqCnt := 3\<rparr>)) = unat (3 :: size_t)
   \<and> dynfileq_idx (input_renumerateInputs (hfuzz_zero\<lparr>mem := [dynfile_zero, dynfile_zero,
      dynfile_zero], io_dynfileq := [2, 0, 1], io_dynfileqCnt := 3\<rparr>)) = [3, 2, 1]"
  using input_renumerateInputs_idx [of "hfuzz_zero\<lparr>mem := [dynfile_zero, dynfile_zero,
      dynfile_zero], io_dynfileq := [2, 0, 1], io_dynfileqCnt := 3\<rparr>"]
  by (simp add: valid_dynfileq_def hfuzz_zero_def upt_rec)

subsection \<open>The comparator\<close>

lemma cmpCov_loop_asym: "cmpCov_loop xs ys \<Longrightarrow> \<not> cmpCov_loop ys xs"
  by (induction xs ys rule: cmpCov_loop.induct) (auto split: if_splits)

lemma input_cmpCov_asym: "input_cmpCov a b \<Longrightarrow> \<not> input_cmpCov b a"
  by (simp add: input_cmpCov_def cmpCov_loop_asym)

lemma input_cmpCov_irrefl: "\<not> input_cmpCov a a"
  using input_cmpCov_asym by blast

lemma list_ex_upt_4: "list_ex P [0..<4] = (P 0 \<or> P (Suc 0) \<or> P 2 \<or> P (3::nat))"
proof -
  have "[0..<4] = [0, Suc 0, 2, 3]" by (simp add: upt_rec)
  then show ?thesis by simp
qed

lemma input_cmpCov_lex: "input_cmpCov a b = cmpCov_lex (cov a) (cov b)"
proof -
  obtain a0 a1 a2 a3 where a: "cov a = (a0, a1, a2, a3)" by (cases "cov a") auto
  obtain b0 b1 b2 b3 where b: "cov b = (b0, b1, b2, b3)" by (cases "cov b") auto
  show ?thesis
    unfolding input_cmpCov_def cmpCov_lex_def list_ex_upt_4 a b cov_array_def
    by (auto simp add: numeral_2_eq_2 numeral_3_eq_3)
qed

subsection \<open>Insertion into the dynamic corpus\<close>

lemma addDynamicInput_iter_Some:
  "addDynamicInput_iter m d q = Some it \<Longrightarrow> it \<in> set q \<and> input_cmpCov d (m ! it)"
  by (induction q) (auto split: if_splits)

lemma addDynamicInput_sorted_Nil: "addDynamicInput_sorted m d [] p = [p]"
  by (simp add: addDynamicInput_sorted_def TAILQ_INSERT_TAIL_def)

lemma addDynamicInput_sorted_Cons:
  "addDynamicInput_sorted m d (a # q) p =
     (if input_cmpCov d (m ! a) then p # a # q else a # addDynamicInput_sorted m d q p)"
proof (cases "input_cmpCov d (m ! a)")
  case True
  then show ?thesis by (simp add: addDynamicInput_sorted_def)
next
  case False
  show ?thesis
  proof (cases "addDynamicInput_iter m d q")
    case None
    then show ?thesis using False
      by (simp add: addDynamicInput_sorted_def TAILQ_INSERT_TAIL_def)
  next
    case (Some it)
    then have "input_cmpCov d (m ! it)" by (simp add: addDynamicInput_iter_Some)
    then have "a \<noteq> it" using False by auto
    then show ?thesis using False Some by (simp add: addDynamicInput_sorted_def)
  qed
qed

lemma set_addDynamicInput_sorted: "set (addDynamicInput_sorted m d q p) = insert p (set q)"
  by (induction q) (auto simp add: addDynamicInput_sorted_Nil addDynamicInput_sorted_Cons)

lemma length_addDynamicInput_sorted: "length (addDynamicInput_sorted m d q p) = Suc (length q)"
  by (induction q) (auto simp add: addDynamicInput_sorted_Nil addDynamicInput_sorted_Cons)

lemma mset_addDynamicInput_sorted: "mset (addDynamicInput_sorted m d q p) = {#p#} + mset q"
  by (induction q) (auto simp add: addDynamicInput_sorted_Nil addDynamicInput_sorted_Cons)

lemma distinct_addDynamicInput_sorted:
  "distinct q \<Longrightarrow> p \<notin> set q \<Longrightarrow> distinct (addDynamicInput_sorted m d q p)"
  by (induction q)
    (auto simp add: addDynamicInput_sorted_Nil addDynamicInput_sorted_Cons
      set_addDynamicInput_sorted)

lemma successively_addDynamicInput_sorted:
  assumes "successively (\<lambda>a b. \<not> input_cmpCov (m ! b) (m ! a)) q" and "m ! p = d"
  shows "successively (\<lambda>a b. \<not> input_cmpCov (m ! b) (m ! a)) (addDynamicInput_sorted m d q p)"
  using assms(1)
proof (induction q)
  case Nil
  then show ?case by (simp add: addDynamicInput_sorted_Nil)
next
  case (Cons a q)
  show ?case
  proof (cases "input_cmpCov d (m ! a)")
    case True
    then have "\<not> input_cmpCov (m ! a) (m ! p)"
      using assms(2) input_cmpCov_asym by simp
    then show ?thesis using True Cons.prems by (simp add: addDynamicInput_sorted_Cons)
  next
    case False
    have tl: "successively (\<lambda>a b. \<not> input_cmpCov (m ! b) (m ! a)) q"
      using Cons.prems by (auto simp add: successively_Cons)
    have ih: "successively (\<lambda>a b. \<not> input_cmpCov (m ! b) (m ! a))
                (addDynamicInput_sorted m d q p)"
      using tl by (rule Cons.IH)
    have hd: "\<not> input_cmpCov (m ! hd (addDynamicInput_sorted m d q p)) (m ! a)"
    proof (cases q)
      case Nil
      then show ?thesis using False assms(2) by (simp add: addDynamicInput_sorted_Nil)
    next
      case (Cons b q')
      then show ?thesis using False assms(2) Cons.prems
        by (simp add: addDynamicInput_sorted_Cons)
    qed
    show ?thesis using False ih hd
      by (simp add: addDynamicInput_sorted_Cons successively_Cons)
  qed
qed

lemma mem_input_addDynamicInput:
  "mem (input_addDynamicInput c1 c2 now hfuzz buf len cv pth)
     = mem hfuzz @ [addDynamicInput_dynfile hfuzz buf len cv pth]"
  by (simp add: input_addDynamicInput_def addDynamicInput_dynfile_def Let_def
      split: option.splits)

lemma feedback_state_input_addDynamicInput:
  "feedback_state (input_addDynamicInput c1 c2 now hfuzz buf len cv pth) = feedback_state hfuzz"
  by (simp add: input_addDynamicInput_def Let_def split: option.splits)

lemma state_input_addDynamicInput:
  "fuzz_getState (input_addDynamicInput c1 c2 now hfuzz buf len cv pth) = fuzz_getState hfuzz"
  by (simp add: fuzz_getState_def feedback_state_input_addDynamicInput)

lemma cnt_input_addDynamicInput:
  "io_dynfileqCnt (input_addDynamicInput c1 c2 now hfuzz buf len cv pth)
     = io_dynfileqCnt hfuzz + 1"
  by (simp add: input_addDynamicInput_def Let_def split: option.splits)

lemma dynfileq_input_addDynamicInput_sorted:
  assumes "fuzz_getState hfuzz \<noteq> HF_STATE_DYNAMIC_MAIN"
  shows "io_dynfileq (input_addDynamicInput c1 c2 now hfuzz buf len cv pth)
     = addDynamicInput_sorted (mem hfuzz @ [addDynamicInput_dynfile hfuzz buf len cv pth])
         (addDynamicInput_dynfile hfuzz buf len cv pth) (io_dynfileq hfuzz) (length (mem hfuzz))"
  using assms
  by (simp add: input_addDynamicInput_def addDynamicInput_dynfile_def addDynamicInput_sorted_def
      fuzz_getState_def Let_def split: option.splits)

lemma current_input_addDynamicInput_sorted:
  assumes "fuzz_getState hfuzz \<noteq> HF_STATE_DYNAMIC_MAIN"
  shows "io_dynfileqCurrent (input_addDynamicInput c1 c2 now hfuzz buf len cv pth)
     = io_dynfileqCurrent hfuzz"
  using assms
  by (simp add: input_addDynamicInput_def fuzz_getState_def Let_def split: option.splits)

lemma dynfileq_input_addDynamicInput_main:
  assumes "fuzz_getState hfuzz = HF_STATE_DYNAMIC_MAIN"
  shows "io_dynfileq (input_addDynamicInput c1 c2 now hfuzz buf len cv pth)
     = length (mem hfuzz) # io_dynfileq hfuzz"
  using assms
  by (simp add: input_addDynamicInput_def fuzz_getState_def TAILQ_INSERT_HEAD_def Let_def
      split: option.splits)

lemma current_input_addDynamicInput_main:
  assumes "fuzz_getState hfuzz = HF_STATE_DYNAMIC_MAIN"
  shows "io_dynfileqCurrent (input_addDynamicInput c1 c2 now hfuzz buf len cv pth)
     = Some (length (mem hfuzz))"
  using assms
  by (simp add: input_addDynamicInput_def fuzz_getState_def TAILQ_INSERT_HEAD_def
      TAILQ_FIRST_def Let_def split: option.splits)

lemma valid_dynfileq_addDynamicInput_sorted:
  assumes "valid_dynfileq hfuzz" and "fuzz_getState hfuzz \<noteq> HF_STATE_DYNAMIC_MAIN"
  shows "valid_dynfileq (input_addDynamicInput c1 c2 now hfuzz buf len cv pth)"
proof -
  have lt: "\<forall>a \<in> set (io_dynfileq hfuzz). a < length (mem hfuzz)"
    using assms(1) by (simp add: valid_dynfileq_def list_all_iff)
  then have fresh: "length (mem hfuzz) \<notin> set (io_dynfileq hfuzz)" by auto
  have "distinct (io_dynfileq hfuzz)" using assms(1) by (simp add: valid_dynfileq_def)
  then show ?thesis
    using lt fresh assms(2)
    by (auto simp add: valid_dynfileq_def list_all_iff dynfileq_input_addDynamicInput_sorted
        mem_input_addDynamicInput set_addDynamicInput_sorted distinct_addDynamicInput_sorted
        less_Suc_eq)
qed

lemma cov_sorted_addDynamicInput_sorted:
  assumes "valid_dynfileq hfuzz" and "fuzz_getState hfuzz \<noteq> HF_STATE_DYNAMIC_MAIN"
    and "cov_sorted hfuzz"
  shows "cov_sorted (input_addDynamicInput c1 c2 now hfuzz buf len cv pth)"
proof -
  let ?d = "addDynamicInput_dynfile hfuzz buf len cv pth"
  let ?m = "mem hfuzz @ [?d]"
  let ?q = "io_dynfileq hfuzz"
  have lt: "\<forall>a \<in> set ?q. a < length (mem hfuzz)"
    using assms(1) by (simp add: valid_dynfileq_def list_all_iff)
  have "successively (\<lambda>a b. \<not> input_cmpCov (mem hfuzz ! b) (mem hfuzz ! a)) ?q"
    using assms(3) by (simp add: cov_sorted_def dynfileq_entries_def successively_map)
  moreover have "successively (\<lambda>a b. \<not> input_cmpCov (mem hfuzz ! b) (mem hfuzz ! a)) ?q
      = successively (\<lambda>a b. \<not> input_cmpCov (?m ! b) (?m ! a)) ?q"
    using lt by (intro successively_cong) (simp_all add: nth_append)
  ultimately have old: "successively (\<lambda>a b. \<not> input_cmpCov (?m ! b) (?m ! a)) ?q"
    by simp
  have new: "?m ! length (mem hfuzz) = ?d" by simp
  have "successively (\<lambda>a b. \<not> input_cmpCov (?m ! b) (?m ! a))
          (addDynamicInput_sorted ?m ?d ?q (length (mem hfuzz)))"
    using old new by (rule successively_addDynamicInput_sorted)
  then show ?thesis
    using assms(2)
    by (simp add: cov_sorted_def dynfileq_entries_def successively_map
        dynfileq_input_addDynamicInput_sorted mem_input_addDynamicInput)
qed

lemma mset_entries_addDynamicInput_sorted:
  assumes "valid_dynfileq hfuzz" and "fuzz_getState hfuzz \<noteq> HF_STATE_DYNAMIC_MAIN"
  shows "mset (dynfileq_entries (input_addDynamicInput c1 c2 now hfuzz buf len cv pth))
    = {#addDynamicInput_dynfile hfuzz buf len cv pth#} + mset (dynfileq_entries hfuzz)"
proof -
  let ?d = "addDynamicInput_dynfile hfuzz buf len cv pth"
  let ?m = "mem hfuzz @ [?d]"
  let ?q = "io_dynfileq hfuzz"
  have lt: "\<forall>a \<in> set ?q. a < length (mem hfuzz)"
    using assms(1) by (simp add: valid_dynfileq_def list_all_iff)
  then have old: "map (\<lambda>a. ?m ! a) ?q = map (\<lambda>a. mem hfuzz ! a) ?q"
    by (simp add: nth_append)
  have "mset (dynfileq_entries (input_addDynamicInput c1 c2 now hfuzz buf len cv pth))
          = image_mset (\<lambda>a. ?m ! a) (mset (addDynamicInput_sorted ?m ?d ?q (length (mem hfuzz))))"
    using assms(2)
    by (simp add: dynfileq_entries_def dynfileq_input_addDynamicInput_sorted
        mem_input_addDynamicInput)
  also have "\<dots> = {#?d#} + mset (map (\<lambda>a. ?m ! a) ?q)"
    by (simp add: mset_addDynamicInput_sorted)
  finally show ?thesis by (simp only: old dynfileq_entries_def)
qed

lemma length_dynfileq_addDynamicInput:
  "length (io_dynfileq (input_addDynamicInput c1 c2 now hfuzz buf len cv pth))
     = Suc (length (io_dynfileq hfuzz))"
  by (cases "fuzz_getState hfuzz = HF_STATE_DYNAMIC_MAIN")
    (simp_all add: dynfileq_input_addDynamicInput_main dynfileq_input_addDynamicInput_sorted
      length_addDynamicInput_sorted)

lemma addDynamicInputs_invariant:
  assumes "valid_dynfileq hfuzz" and "fuzz_getState hfuzz \<noteq> HF_STATE_DYNAMIC_MAIN"
    and "cov_sorted hfuzz"
  shows "valid_dynfileq (addDynamicInputs c1 c2 hfuzz calls)
    \<and> cov_sorted (addDynamicInputs c1 c2 hfuzz calls)
    \<and> length (io_dynfileq (addDynamicInputs c1 c2 hfuzz calls))
        = length (io_dynfileq hfuzz) + length calls
    \<and> mset (map cov (dynfileq_entries (addDynamicInputs c1 c2 hfuzz calls)))
        = mset (map cov (dynfileq_entries hfuzz))
            + mset (map (\<lambda>(now, buf, len, cv, pth). cv) calls)"
  using assms
proof (induction calls arbitrary: hfuzz)
  case Nil
  then show ?case by simp
next
  case (Cons call calls)
  obtain now buf len cv pth where call: "call = (now, buf, len, cv, pth)"
    by (cases call) auto
  let ?h = "input_addDynamicInput c1 c2 now hfuzz buf len cv pth"
  have "mset (dynfileq_entries ?h)
          = {#addDynamicInput_dynfile hfuzz buf len cv pth#} + mset (dynfileq_entries hfuzz)"
    using Cons.prems by (simp add: mset_entries_addDynamicInput_sorted)
  then have "image_mset cov (mset (dynfileq_entries ?h))
          = {#cv#} + image_mset cov (mset (dynfileq_entries hfuzz))"
    by (simp add: addDynamicInput_dynfile_def)
  then have m: "mset (map cov (dynfileq_entries ?h))
          = {#cv#} + mset (map cov (dynfileq_entries hfuzz))"
    by simp
  have "valid_dynfileq ?h" and "cov_sorted ?h" and "fuzz_getState ?h \<noteq> HF_STATE_DYNAMIC_MAIN"
    using Cons.prems
    by (simp_all add: valid_dynfileq_addDynamicInput_sorted cov_sorted_addDynamicInput_sorted
        state_input_addDynamicInput)
  then show ?case
    using Cons.IH [of ?h] m by (simp add: call length_dynfileq_addDynamicInput)
qed

text \<open>
  Claim C2. Start from the empty corpus in a phase other than \<^verbatim>\<open>DYNAMIC_MAIN\<close>. After
  every sequence of calls of \<open>input_addDynamicInput\<close> the queue holds one entry for each
  call, with the coverage tuples of the calls, and is coverage-sorted: for every adjacent
  pair \<open>(a, b)\<close> of entries from head to tail, \<open>input_cmpCov b a\<close> is false. \<open>input_cmpCov\<close>
  is the lexicographic strictly-greater comparison of the specification on the
  four-element coverage tuples.
\<close>

theorem addDynamicInputs_cov_sorted:
  assumes "fuzz_getState hfuzz \<noteq> HF_STATE_DYNAMIC_MAIN" and "io_dynfileq hfuzz = []"
  shows "(\<forall>i. Suc i < length (dynfileq_entries (addDynamicInputs c1 c2 hfuzz calls)) \<longrightarrow>
            \<not> input_cmpCov (dynfileq_entries (addDynamicInputs c1 c2 hfuzz calls) ! Suc i)
                (dynfileq_entries (addDynamicInputs c1 c2 hfuzz calls) ! i))
    \<and> length (dynfileq_entries (addDynamicInputs c1 c2 hfuzz calls)) = length calls
    \<and> mset (map cov (dynfileq_entries (addDynamicInputs c1 c2 hfuzz calls)))
        = mset (map (\<lambda>(now, buf, len, cv, pth). cv) calls)
    \<and> (\<forall>a b. input_cmpCov a b = cmpCov_lex (cov a) (cov b))"
proof -
  have v: "valid_dynfileq hfuzz" and s: "cov_sorted hfuzz"
    using assms(2) by (simp_all add: valid_dynfileq_def cov_sorted_def dynfileq_entries_def)
  have inv: "cov_sorted (addDynamicInputs c1 c2 hfuzz calls)
    \<and> length (io_dynfileq (addDynamicInputs c1 c2 hfuzz calls)) = length calls
    \<and> mset (map cov (dynfileq_entries (addDynamicInputs c1 c2 hfuzz calls)))
        = mset (map (\<lambda>(now, buf, len, cv, pth). cv) calls)"
    using addDynamicInputs_invariant [OF v assms(1) s, of c1 c2 calls] assms(2)
    by (simp add: dynfileq_entries_def)
  then have "successively (\<lambda>a b. \<not> input_cmpCov b a)
               (dynfileq_entries (addDynamicInputs c1 c2 hfuzz calls))"
    by (simp add: cov_sorted_def)
  then have "\<forall>i. Suc i < length (dynfileq_entries (addDynamicInputs c1 c2 hfuzz calls)) \<longrightarrow>
            \<not> input_cmpCov (dynfileq_entries (addDynamicInputs c1 c2 hfuzz calls) ! Suc i)
                (dynfileq_entries (addDynamicInputs c1 c2 hfuzz calls) ! i)"
    by (simp add: successively_conv_nth)
  then show ?thesis
    using inv input_cmpCov_lex by (simp add: dynfileq_entries_def)
qed

lemma four_calls_entries:
  "map cov (dynfileq_entries (addDynamicInputs crc_zero crc_zero hfuzz_dry_run four_calls))
     = [(3, 0, 0, 0), (2, 5, 0, 0), (2, 4, 0, 0), (1, 0, 0, 0)]"
  by (simp add: four_calls_def hfuzz_dry_run_def hfuzz_zero_def dynfileq_entries_def
      dynfileq_input_addDynamicInput_sorted mem_input_addDynamicInput
      feedback_state_input_addDynamicInput cnt_input_addDynamicInput fuzz_getState_def
      addDynamicInput_sorted_Cons addDynamicInput_sorted_Nil addDynamicInput_dynfile_def
      input_cmpCov_def cov_array_def nth_append)

theorem addDynamicInputs_cov_sorted_witness:
  "fuzz_getState hfuzz_dry_run \<noteq> HF_STATE_DYNAMIC_MAIN \<and> io_dynfileq hfuzz_dry_run = []
   \<and> map cov (dynfileq_entries
        (addDynamicInputs crc_zero crc_zero hfuzz_dry_run four_calls))
        = [(3, 0, 0, 0), (2, 5, 0, 0), (2, 4, 0, 0), (1, 0, 0, 0)]
   \<and> length (dynfileq_entries
        (addDynamicInputs crc_zero crc_zero hfuzz_dry_run four_calls)) = 4
   \<and> \<not> input_cmpCov
        (dynfileq_entries (addDynamicInputs crc_zero crc_zero hfuzz_dry_run four_calls) ! Suc 0)
        (dynfileq_entries (addDynamicInputs crc_zero crc_zero hfuzz_dry_run four_calls) ! 0)"
proof -
  let ?es = "dynfileq_entries (addDynamicInputs crc_zero crc_zero hfuzz_dry_run four_calls)"
  have h1: "fuzz_getState hfuzz_dry_run \<noteq> HF_STATE_DYNAMIC_MAIN"
    by (simp add: fuzz_getState_def hfuzz_dry_run_def)
  have h2: "io_dynfileq hfuzz_dry_run = []"
    by (simp add: hfuzz_dry_run_def hfuzz_zero_def)
  note t = addDynamicInputs_cov_sorted [OF h1 h2, of crc_zero crc_zero four_calls]
  have len: "length ?es = 4" using t by (simp add: four_calls_def)
  then have "Suc 0 < length ?es" by simp
  then have adj: "\<not> input_cmpCov (?es ! Suc 0) (?es ! 0)" using t by blast
  show ?thesis using h1 h2 four_calls_entries len adj by simp
qed

text \<open>
  Claim C6. In the \<^verbatim>\<open>DYNAMIC_MAIN\<close> phase, \<open>input_addDynamicInput\<close> puts the new node (the
  fresh address \<open>length (mem hfuzz)\<close>, holding the given coverage tuple whatever it is) at
  the head of the queue, in front of the unchanged old queue, and sets
  \<^verbatim>\<open>dynfileqCurrent\<close> to it, the new head. On a well-formed queue the entries from head to
  tail are the new entry followed by the old entries.
\<close>

theorem input_addDynamicInput_main:
  assumes "fuzz_getState hfuzz = HF_STATE_DYNAMIC_MAIN"
  shows "io_dynfileq (input_addDynamicInput c1 c2 now hfuzz buf len cv pth)
           = length (mem hfuzz) # io_dynfileq hfuzz
    \<and> io_dynfileqCurrent (input_addDynamicInput c1 c2 now hfuzz buf len cv pth)
           = Some (length (mem hfuzz))
    \<and> io_dynfileqCurrent (input_addDynamicInput c1 c2 now hfuzz buf len cv pth)
           = TAILQ_FIRST (io_dynfileq (input_addDynamicInput c1 c2 now hfuzz buf len cv pth))
    \<and> mem (input_addDynamicInput c1 c2 now hfuzz buf len cv pth) ! length (mem hfuzz)
           = addDynamicInput_dynfile hfuzz buf len cv pth
    \<and> cov (addDynamicInput_dynfile hfuzz buf len cv pth) = cv
    \<and> (valid_dynfileq hfuzz \<longrightarrow>
          dynfileq_entries (input_addDynamicInput c1 c2 now hfuzz buf len cv pth)
            = addDynamicInput_dynfile hfuzz buf len cv pth # dynfileq_entries hfuzz)"
proof -
  have "valid_dynfileq hfuzz \<Longrightarrow>
          map (\<lambda>a. (mem hfuzz @ [addDynamicInput_dynfile hfuzz buf len cv pth]) ! a)
            (io_dynfileq hfuzz) = map (\<lambda>a. mem hfuzz ! a) (io_dynfileq hfuzz)"
    by (simp add: valid_dynfileq_def list_all_iff nth_append)
  then show ?thesis
    using assms
    by (simp add: dynfileq_input_addDynamicInput_main current_input_addDynamicInput_main
        mem_input_addDynamicInput TAILQ_FIRST_def dynfileq_entries_def
        addDynamicInput_dynfile_def)
qed

theorem input_addDynamicInput_main_witness:
  "fuzz_getState ((addDynamicInputs crc_zero crc_zero hfuzz_dry_run four_calls)
      \<lparr>feedback_state := HF_STATE_DYNAMIC_MAIN\<rparr>) = HF_STATE_DYNAMIC_MAIN
   \<and> map cov (dynfileq_entries (input_addDynamicInput crc_zero crc_zero 0
        ((addDynamicInputs crc_zero crc_zero hfuzz_dry_run four_calls)
           \<lparr>feedback_state := HF_STATE_DYNAMIC_MAIN\<rparr>) [] 0 (0, 9, 0, 0) ''e''))
        = [(0, 9, 0, 0), (3, 0, 0, 0), (2, 5, 0, 0), (2, 4, 0, 0), (1, 0, 0, 0)]
   \<and> io_dynfileqCurrent (input_addDynamicInput crc_zero crc_zero 0
        ((addDynamicInputs crc_zero crc_zero hfuzz_dry_run four_calls)
           \<lparr>feedback_state := HF_STATE_DYNAMIC_MAIN\<rparr>) [] 0 (0, 9, 0, 0) ''e'')
        = TAILQ_FIRST (io_dynfileq (input_addDynamicInput crc_zero crc_zero 0
            ((addDynamicInputs crc_zero crc_zero hfuzz_dry_run four_calls)
               \<lparr>feedback_state := HF_STATE_DYNAMIC_MAIN\<rparr>) [] 0 (0, 9, 0, 0) ''e''))"
proof -
  let ?h = "addDynamicInputs crc_zero crc_zero hfuzz_dry_run four_calls"
  let ?hm = "?h\<lparr>feedback_state := HF_STATE_DYNAMIC_MAIN\<rparr>"
  have m: "fuzz_getState ?hm = HF_STATE_DYNAMIC_MAIN"
    by (simp add: fuzz_getState_def)
  have "valid_dynfileq hfuzz_dry_run" and "cov_sorted hfuzz_dry_run"
    and "fuzz_getState hfuzz_dry_run \<noteq> HF_STATE_DYNAMIC_MAIN"
    by (simp_all add: valid_dynfileq_def cov_sorted_def dynfileq_entries_def fuzz_getState_def
        hfuzz_dry_run_def hfuzz_zero_def)
  then have "valid_dynfileq ?h"
    using addDynamicInputs_invariant by blast
  then have v: "valid_dynfileq ?hm"
    by (simp add: valid_dynfileq_def)
  have e: "dynfileq_entries ?hm = dynfileq_entries ?h"
    by (simp add: dynfileq_entries_def)
  note t = input_addDynamicInput_main [OF m, of crc_zero crc_zero 0 "[]" 0 "(0, 9, 0, 0)" "''e''"]
  have "dynfileq_entries (input_addDynamicInput crc_zero crc_zero 0 ?hm [] 0 (0, 9, 0, 0) ''e'')
          = addDynamicInput_dynfile ?hm [] 0 (0, 9, 0, 0) ''e'' # dynfileq_entries ?hm"
    using t v by blast
  then have c: "map cov (dynfileq_entries
        (input_addDynamicInput crc_zero crc_zero 0 ?hm [] 0 (0, 9, 0, 0) ''e''))
        = [(0, 9, 0, 0), (3, 0, 0, 0), (2, 5, 0, 0), (2, 4, 0, 0), (1, 0, 0, 0)]"
    using t e four_calls_entries by simp
  have f: "io_dynfileqCurrent (input_addDynamicInput crc_zero crc_zero 0 ?hm [] 0
             (0, 9, 0, 0) ''e'')
        = TAILQ_FIRST (io_dynfileq (input_addDynamicInput crc_zero crc_zero 0 ?hm [] 0
             (0, 9, 0, 0) ''e''))"
    using t by blast
  show ?thesis using m c f by (intro conjI)
qed

subsection \<open>Selection\<close>

lemma input_numTests_range:
  assumes "input_numTests i total_n = Inr testCnt"
  shows "1 \<le> testCnt \<and> testCnt \<le> 10 \<and> total_n \<noteq> 0"
proof -
  have nz: "total_n \<noteq> 0" and le: "i \<le> total_n"
    using assms by (auto simp add: input_numTests_def split: if_splits)
  have "testCnt = testQuota_table (unat ((i * 100) div total_n))"
    using assms input_numTests_ok [OF nz le] by simp
  then show ?thesis using nz by (simp add: testQuota_table_def)
qed

lemma input_setSize_ok:
  "sz \<le> mutate_maxInputSz hfuzz \<Longrightarrow> \<exists>run'. input_setSize hfuzz run sz = Inr run'"
  by (auto simp add: input_setSize_def)

lemma input_setSize_maxInputSz:
  "mutate_maxInputSz h = mutate_maxInputSz hfuzz \<Longrightarrow>
     input_setSize h run sz = input_setSize hfuzz run sz"
  by (simp add: input_setSize_def)

text \<open>
  One call, with the node \<open>a\<close> that the call serves: the cursor, or the head of the
  queue when the cursor is null.
\<close>

lemma input_prepareDynamicInput_step:
  assumes cur: "io_dynfileqCurrent hfuzz = Some a
      \<or> (io_dynfileqCurrent hfuzz = None \<and> TAILQ_FIRST (io_dynfileq hfuzz) = Some a)"
    and a: "a < length (mem hfuzz)"
    and q: "input_numTests (idx (mem hfuzz ! a)) (io_dynfileqCnt hfuzz) = Inr testCnt"
    and r1: "input_setSize hfuzz run (size_f (mem hfuzz ! a)) = Inr r1"
  shows "\<exists>run'. input_prepareDynamicInput mangle hfuzz run needs_mangle
           = Inr (hfuzz
                   \<lparr>io_dynfileqCurrent :=
                      (if testCnt \<le> tested (mem hfuzz ! a) + 1
                       then TAILQ_NEXT (io_dynfileq hfuzz) a else Some a),
                    mem := (mem hfuzz)[a := (mem hfuzz ! a)
                      \<lparr>tested := (if testCnt \<le> tested (mem hfuzz ! a) + 1 then 0
                                  else tested (mem hfuzz ! a) + 1)\<rparr>]\<rparr>, run')"
proof -
  have nz: "io_dynfileqCnt hfuzz \<noteq> 0"
    using input_numTests_range [OF q] by simp
  show ?thesis
    using cur
  proof
    assume c: "io_dynfileqCurrent hfuzz = Some a"
    then have e: "hfuzz\<lparr>io_dynfileqCurrent := Some a\<rparr> = hfuzz" by (cases hfuzz) simp
    show ?thesis
    proof (cases "testCnt \<le> tested (mem hfuzz ! a) + 1")
      case True
      show ?thesis
        unfolding input_prepareDynamicInput_def Let_def
        using c a q nz True
        apply simp
        apply (simp add: input_setSize_maxInputSz [of _ hfuzz] r1)
        done
    next
      case False
      show ?thesis
        unfolding input_prepareDynamicInput_def Let_def
        using c a q nz False
        apply (simp add: e)
        apply (simp add: input_setSize_maxInputSz [of _ hfuzz] r1)
        done
    qed
  next
    assume c: "io_dynfileqCurrent hfuzz = None \<and> TAILQ_FIRST (io_dynfileq hfuzz) = Some a"
    show ?thesis
    proof (cases "testCnt \<le> tested (mem hfuzz ! a) + 1")
      case True
      show ?thesis
        unfolding input_prepareDynamicInput_def Let_def
        using c a q nz True
        apply simp
        apply (simp add: input_setSize_maxInputSz [of _ hfuzz] r1)
        done
    next
      case False
      show ?thesis
        unfolding input_prepareDynamicInput_def Let_def
        using c a q nz False
        apply simp
        apply (simp add: input_setSize_maxInputSz [of _ hfuzz] r1)
        done
    qed
  qed
qed

lemma size_t_succ:
  fixes t T :: size_t
  assumes "unat t + 1 < unat T"
  shows "unat (t + 1) = unat t + 1" and "\<not> T \<le> t + 1"
proof -
  have "unat T < 2 ^ 64" using unsigned_less [of T] by simp
  then have "unat t + unat (1 :: size_t) < 2 ^ LENGTH(64)" using assms by simp
  then have "unat (t + 1) = unat t + unat (1 :: size_t)"
    by (simp only: unat_add_lem [THEN iffD1])
  then show u: "unat (t + 1) = unat t + 1" by simp
  show "\<not> T \<le> t + 1" using assms u by (simp add: word_le_nat_alt)
qed

lemma size_t_last:
  fixes t T :: size_t
  assumes "unat t + 1 = unat T"
  shows "T \<le> t + 1"
proof -
  have "unat T < 2 ^ 64" using unsigned_less [of T] by simp
  then have "unat t + unat (1 :: size_t) < 2 ^ LENGTH(64)" using assms by simp
  then have "unat (t + 1) = unat t + unat (1 :: size_t)"
    by (simp only: unat_add_lem [THEN iffD1])
  then show ?thesis using assms by (simp add: word_le_nat_alt)
qed

lemma prepareDynamicInputs_stay:
  assumes "io_dynfileqCurrent hfuzz = Some a
      \<or> (io_dynfileqCurrent hfuzz = None \<and> TAILQ_FIRST (io_dynfileq hfuzz) = Some a)"
    and "a < length (mem hfuzz)"
    and "input_numTests (idx (mem hfuzz ! a)) (io_dynfileqCnt hfuzz) = Inr testCnt"
    and "size_f (mem hfuzz ! a) \<le> mutate_maxInputSz hfuzz"
    and "calls \<noteq> []"
    and "unat (tested (mem hfuzz ! a)) + length calls < unat testCnt"
  shows "\<exists>run'. prepareDynamicInputs mangle hfuzz run calls
           = Inr (hfuzz\<lparr>io_dynfileqCurrent := Some a,
                   mem := (mem hfuzz)[a := (mem hfuzz ! a)
                     \<lparr>tested := tested (mem hfuzz ! a) + of_nat (length calls)\<rparr>]\<rparr>, run')"
  using assms
proof (induction calls arbitrary: hfuzz run)
  case Nil
  then show ?case by simp
next
  case (Cons c cs)
  let ?e = "mem hfuzz ! a"
  let ?h1 = "hfuzz\<lparr>io_dynfileqCurrent := Some a,
                mem := (mem hfuzz)[a := ?e\<lparr>tested := tested ?e + 1\<rparr>]\<rparr>"
  have lt: "unat (tested ?e) + 1 < unat testCnt" using Cons.prems(6) by simp
  note s = size_t_succ [OF lt]
  obtain r1 where r1: "input_setSize hfuzz run (size_f ?e) = Inr r1"
    using input_setSize_ok [OF Cons.prems(4)] by blast
  obtain run1 where step: "input_prepareDynamicInput mangle hfuzz run c = Inr (?h1, run1)"
    using input_prepareDynamicInput_step [OF Cons.prems(1,2,3) r1, of mangle c] s(2)
    by auto
  show ?case
  proof (cases "cs = []")
    case True
    then show ?thesis using step by simp
  next
    case False
    have "\<exists>run'. prepareDynamicInputs mangle ?h1 run1 cs
           = Inr (?h1\<lparr>io_dynfileqCurrent := Some a,
                   mem := (mem ?h1)[a := (mem ?h1 ! a)
                     \<lparr>tested := tested (mem ?h1 ! a) + of_nat (length cs)\<rparr>]\<rparr>, run')"
      using Cons.prems False s(1) by (intro Cons.IH) simp_all
    then show ?thesis using step Cons.prems(2) by (simp add: add.assoc)
  qed
qed

lemma prepareDynamicInputs_advance:
  assumes "io_dynfileqCurrent hfuzz = Some a
      \<or> (io_dynfileqCurrent hfuzz = None \<and> TAILQ_FIRST (io_dynfileq hfuzz) = Some a)"
    and "a < length (mem hfuzz)"
    and "input_numTests (idx (mem hfuzz ! a)) (io_dynfileqCnt hfuzz) = Inr testCnt"
    and "size_f (mem hfuzz ! a) \<le> mutate_maxInputSz hfuzz"
    and "unat (tested (mem hfuzz ! a)) < unat testCnt"
    and "unat (tested (mem hfuzz ! a)) + length calls = unat testCnt"
  shows "\<exists>run'. prepareDynamicInputs mangle hfuzz run calls
           = Inr (hfuzz\<lparr>io_dynfileqCurrent := TAILQ_NEXT (io_dynfileq hfuzz) a,
                   mem := (mem hfuzz)[a := (mem hfuzz ! a)\<lparr>tested := 0\<rparr>]\<rparr>, run')"
  using assms
proof (induction calls arbitrary: hfuzz run)
  case Nil
  then show ?case by simp
next
  case (Cons c cs)
  let ?e = "mem hfuzz ! a"
  obtain r1 where r1: "input_setSize hfuzz run (size_f ?e) = Inr r1"
    using input_setSize_ok [OF Cons.prems(4)] by blast
  note st = input_prepareDynamicInput_step [OF Cons.prems(1,2,3) r1, of mangle c]
  show ?case
  proof (cases "cs = []")
    case True
    then have "unat (tested ?e) + 1 = unat testCnt" using Cons.prems(6) by simp
    then have "testCnt \<le> tested ?e + 1" by (rule size_t_last)
    then show ?thesis using st True by auto
  next
    case False
    let ?h1 = "hfuzz\<lparr>io_dynfileqCurrent := Some a,
                  mem := (mem hfuzz)[a := ?e\<lparr>tested := tested ?e + 1\<rparr>]\<rparr>"
    have lt: "unat (tested ?e) + 1 < unat testCnt"
      using Cons.prems(6) False by (cases cs) simp_all
    note s = size_t_succ [OF lt]
    obtain run1 where step: "input_prepareDynamicInput mangle hfuzz run c = Inr (?h1, run1)"
      using st s(2) by auto
    have "\<exists>run'. prepareDynamicInputs mangle ?h1 run1 cs
           = Inr (?h1\<lparr>io_dynfileqCurrent := TAILQ_NEXT (io_dynfileq ?h1) a,
                   mem := (mem ?h1)[a := (mem ?h1 ! a)\<lparr>tested := 0\<rparr>]\<rparr>, run')"
      using Cons.prems s(1) lt by (intro Cons.IH) simp_all
    then show ?thesis using step Cons.prems(2) by simp
  qed
qed

lemma TAILQ_NEXT_nth:
  assumes "distinct q" and "i < length q"
  shows "TAILQ_NEXT q (q ! i) = (if Suc i < length q then Some (q ! Suc i) else None)"
  using assms
proof (induction q arbitrary: i)
  case Nil
  then show ?case by simp
next
  case (Cons b q)
  show ?case
  proof (cases i)
    case 0
    then show ?thesis by (cases q) (simp_all add: TAILQ_FIRST_def)
  next
    case (Suc j)
    then have "q ! j \<in> set q" using Cons.prems(2) by simp
    then have "b \<noteq> q ! j" using Cons.prems(1) by auto
    then show ?thesis using Suc Cons by simp
  qed
qed

text \<open>
  Claim C3. Let \<open>a\<close> be the node that the next call serves (the cursor, or the head of
  the queue when the cursor is null), an allocated entry with \<open>tested = 0\<close>, a quota
  \<open>input_numTests idx count = Inr testCnt\<close>, and a size within \<^verbatim>\<open>maxInputSz\<close>. Then every
  run of fewer than \<open>testCnt\<close> consecutive serial calls of \<open>input_prepareDynamicInput\<close>
  returns with the cursor on \<open>a\<close> and \<open>tested\<close> equal to the number of calls, nothing else
  of the global state changed; every run of exactly \<open>testCnt\<close> calls returns with
  \<open>tested\<close> back at 0 and the cursor at \<open>TAILQ_NEXT\<close> of \<open>a\<close>, which in a well-formed queue
  is the node after \<open>a\<close>, or null when \<open>a\<close> is the tail. After each of these runs
  \<open>tested\<close> is below the quota of the entry.
\<close>

theorem prepareDynamicInputs_quota:
  assumes "io_dynfileqCurrent hfuzz = Some a
      \<or> (io_dynfileqCurrent hfuzz = None \<and> TAILQ_FIRST (io_dynfileq hfuzz) = Some a)"
    and "a < length (mem hfuzz)"
    and "tested (mem hfuzz ! a) = 0"
    and "input_numTests (idx (mem hfuzz ! a)) (io_dynfileqCnt hfuzz) = Inr testCnt"
    and "size_f (mem hfuzz ! a) \<le> mutate_maxInputSz hfuzz"
  shows "(\<forall>calls. calls \<noteq> [] \<and> length calls < unat testCnt \<longrightarrow>
            (\<exists>run'. prepareDynamicInputs mangle hfuzz run calls
               = Inr (hfuzz\<lparr>io_dynfileqCurrent := Some a,
                       mem := (mem hfuzz)[a := (mem hfuzz ! a)
                         \<lparr>tested := of_nat (length calls)\<rparr>]\<rparr>, run')))
    \<and> (\<forall>calls. length calls = unat testCnt \<longrightarrow>
            (\<exists>run'. prepareDynamicInputs mangle hfuzz run calls
               = Inr (hfuzz\<lparr>io_dynfileqCurrent := TAILQ_NEXT (io_dynfileq hfuzz) a\<rparr>, run')))
    \<and> (\<forall>calls. length calls \<le> unat testCnt \<longrightarrow>
            (\<exists>h' run'. prepareDynamicInputs mangle hfuzz run calls = Inr (h', run')
               \<and> input_numTests (idx (mem h' ! a)) (io_dynfileqCnt h') = Inr testCnt
               \<and> tested (mem h' ! a) < testCnt))
    \<and> (\<forall>i. valid_dynfileq hfuzz \<and> i < length (io_dynfileq hfuzz)
              \<and> io_dynfileq hfuzz ! i = a \<longrightarrow>
            TAILQ_NEXT (io_dynfileq hfuzz) a
              = (if Suc i < length (io_dynfileq hfuzz)
                 then Some (io_dynfileq hfuzz ! Suc i) else None))"
proof -
  let ?e = "mem hfuzz ! a"
  have pos: "0 < unat testCnt"
    using input_numTests_range [OF assms(4)] by (simp add: word_le_nat_alt)
  have t0: "unat (tested ?e) = 0" using assms(3) by simp
  have id: "(mem hfuzz)[a := ?e\<lparr>tested := 0\<rparr>] = mem hfuzz"
  proof -
    have "?e\<lparr>tested := 0\<rparr> = ?e" using assms(3) by (cases ?e) simp
    then show ?thesis by simp
  qed
  have stay: "\<exists>run'. prepareDynamicInputs mangle hfuzz run calls
               = Inr (hfuzz\<lparr>io_dynfileqCurrent := Some a,
                       mem := (mem hfuzz)[a := ?e\<lparr>tested := of_nat (length calls)\<rparr>]\<rparr>, run')"
    if "calls \<noteq> []" and "length calls < unat testCnt" for calls
    using prepareDynamicInputs_stay [OF assms(1,2,4,5) that(1), of mangle run] that(2) assms(3)
    by simp
  have adv: "\<exists>run'. prepareDynamicInputs mangle hfuzz run calls
               = Inr (hfuzz\<lparr>io_dynfileqCurrent := TAILQ_NEXT (io_dynfileq hfuzz) a\<rparr>, run')"
    if "length calls = unat testCnt" for calls
  proof -
    have "\<exists>run'. prepareDynamicInputs mangle hfuzz run calls
           = Inr (hfuzz\<lparr>io_dynfileqCurrent := TAILQ_NEXT (io_dynfileq hfuzz) a,
                   mem := (mem hfuzz)[a := ?e\<lparr>tested := 0\<rparr>]\<rparr>, run')"
      using pos t0 that by (intro prepareDynamicInputs_advance [OF assms(1,2,4,5)]) simp_all
    then show ?thesis by (simp add: id)
  qed
  have inv: "\<exists>h' run'. prepareDynamicInputs mangle hfuzz run calls = Inr (h', run')
               \<and> input_numTests (idx (mem h' ! a)) (io_dynfileqCnt h') = Inr testCnt
               \<and> tested (mem h' ! a) < testCnt"
    if le: "length calls \<le> unat testCnt" for calls
  proof -
    have zero: "(0 :: size_t) < testCnt" using pos by (simp add: word_less_nat_alt)
    consider "calls = []" | "calls \<noteq> []" "length calls < unat testCnt"
      | "length calls = unat testCnt"
      using le by linarith
    then show ?thesis
    proof cases
      case 1
      then show ?thesis using assms(3,4) zero by simp
    next
      case 2
      have "unat testCnt < 2 ^ 64" using unsigned_less [of testCnt] by simp
      then have "unat (of_nat (length calls) :: size_t) = length calls"
        using 2(2) by (simp add: unat_of_nat)
      then have "(of_nat (length calls) :: size_t) < testCnt"
        using 2(2) by (simp add: word_less_nat_alt)
      then show ?thesis using stay [OF 2] assms(2,4) by auto
    next
      case 3
      then show ?thesis using adv [OF 3] assms(3,4) zero by auto
    qed
  qed
  have nxt: "TAILQ_NEXT (io_dynfileq hfuzz) a
              = (if Suc i < length (io_dynfileq hfuzz)
                 then Some (io_dynfileq hfuzz ! Suc i) else None)"
    if "valid_dynfileq hfuzz" and "i < length (io_dynfileq hfuzz)"
      and "io_dynfileq hfuzz ! i = a" for i
    using TAILQ_NEXT_nth [of "io_dynfileq hfuzz" i] that by (simp add: valid_dynfileq_def)
  show ?thesis using stay adv inv nxt by blast
qed

theorem prepareDynamicInputs_quota_witness:
  "(io_dynfileqCurrent hfuzz_quota = None \<and> TAILQ_FIRST (io_dynfileq hfuzz_quota) = Some 0)
   \<and> 0 < length (mem hfuzz_quota)
   \<and> tested (mem hfuzz_quota ! 0) = 0
   \<and> input_numTests (idx (mem hfuzz_quota ! 0)) (io_dynfileqCnt hfuzz_quota) = Inr 10
   \<and> size_f (mem hfuzz_quota ! 0) \<le> mutate_maxInputSz hfuzz_quota
   \<and> (\<exists>run'. prepareDynamicInputs id hfuzz_quota run_zero (replicate 9 True)
          = Inr (hfuzz_quota\<lparr>io_dynfileqCurrent := Some 0,
                  mem := (mem hfuzz_quota)[0 := (mem hfuzz_quota ! 0)\<lparr>tested := 9\<rparr>]\<rparr>, run'))
   \<and> (\<exists>run'. prepareDynamicInputs id hfuzz_quota run_zero (replicate 10 True)
          = Inr (hfuzz_quota\<lparr>io_dynfileqCurrent := Some 1\<rparr>, run'))
   \<and> input_numTests (idx (mem (hfuzz_quota\<lparr>io_dynfileqCurrent := Some 1\<rparr>) ! 1))
        (io_dynfileqCnt (hfuzz_quota\<lparr>io_dynfileqCurrent := Some 1\<rparr>)) = Inr 1
   \<and> (\<exists>run'. prepareDynamicInputs id (hfuzz_quota\<lparr>io_dynfileqCurrent := Some 1\<rparr>)
          run_zero [True]
          = Inr (hfuzz_quota\<lparr>io_dynfileqCurrent := None\<rparr>, run'))"
proof -
  have h1: "io_dynfileqCurrent hfuzz_quota = Some 0
      \<or> (io_dynfileqCurrent hfuzz_quota = None \<and> TAILQ_FIRST (io_dynfileq hfuzz_quota) = Some 0)"
    and h1': "io_dynfileqCurrent hfuzz_quota = None
      \<and> TAILQ_FIRST (io_dynfileq hfuzz_quota) = Some 0"
    and h2: "0 < length (mem hfuzz_quota)"
    and h3: "tested (mem hfuzz_quota ! 0) = 0"
    and h5: "size_f (mem hfuzz_quota ! 0) \<le> mutate_maxInputSz hfuzz_quota"
    by (simp_all add: hfuzz_quota_def hfuzz_zero_def dynfile_zero_def TAILQ_FIRST_def)
  have h4: "input_numTests (idx (mem hfuzz_quota ! 0)) (io_dynfileqCnt hfuzz_quota) = Inr 10"
    by (simp add: hfuzz_quota_def hfuzz_zero_def dynfile_zero_def input_numTests_ok
        testQuota_table_def)
  have nxt: "TAILQ_NEXT (io_dynfileq hfuzz_quota) 0 = Some 1"
    by (simp add: hfuzz_quota_def hfuzz_zero_def TAILQ_FIRST_def)
  note t = prepareDynamicInputs_quota [OF h1 h2 h3 h4 h5, of id run_zero]
  have nine: "replicate 9 True \<noteq> [] \<and> length (replicate 9 True) < unat (10 :: size_t)"
    by simp
  have ten: "length (replicate 10 True) = unat (10 :: size_t)"
    by simp
  have a: "\<exists>run'. prepareDynamicInputs id hfuzz_quota run_zero (replicate 9 True)
          = Inr (hfuzz_quota\<lparr>io_dynfileqCurrent := Some 0,
                  mem := (mem hfuzz_quota)[0 := (mem hfuzz_quota ! 0)\<lparr>tested := 9\<rparr>]\<rparr>, run')"
    using t [THEN conjunct1, rule_format, of "replicate 9 True", OF nine] by simp
  have b: "\<exists>run'. prepareDynamicInputs id hfuzz_quota run_zero (replicate 10 True)
          = Inr (hfuzz_quota\<lparr>io_dynfileqCurrent := Some 1\<rparr>, run')"
    using t [THEN conjunct2, THEN conjunct1, rule_format, of "replicate 10 True", OF ten] nxt
    by simp
  let ?h = "hfuzz_quota\<lparr>io_dynfileqCurrent := Some 1\<rparr>"
  have k1: "io_dynfileqCurrent ?h = Some 1
      \<or> (io_dynfileqCurrent ?h = None \<and> TAILQ_FIRST (io_dynfileq ?h) = Some 1)"
    and k2: "1 < length (mem ?h)"
    and k3: "tested (mem ?h ! 1) = 0"
    and k5: "size_f (mem ?h ! 1) \<le> mutate_maxInputSz ?h"
    by (simp_all add: hfuzz_quota_def hfuzz_zero_def dynfile_zero_def)
  have k4: "input_numTests (idx (mem ?h ! 1)) (io_dynfileqCnt ?h) = Inr 1"
    by (simp add: hfuzz_quota_def hfuzz_zero_def dynfile_zero_def input_numTests_ok
        testQuota_table_def)
  have nxt1: "TAILQ_NEXT (io_dynfileq ?h) 1 = None"
    by (simp add: hfuzz_quota_def hfuzz_zero_def TAILQ_FIRST_def)
  have one: "length [True] = unat (1 :: size_t)"
    by simp
  note u = prepareDynamicInputs_quota [OF k1 k2 k3 k4 k5, of id run_zero]
  have c: "\<exists>run'. prepareDynamicInputs id ?h run_zero [True]
          = Inr (hfuzz_quota\<lparr>io_dynfileqCurrent := None\<rparr>, run')"
    using u [THEN conjunct2, THEN conjunct1, rule_format, of "[True]", OF one] nxt1
    by simp
  show ?thesis using h1' h2 h3 h4 h5 a b k4 c by blast
qed

subsection \<open>The seed directory scan\<close>

lemma getDirStats_loop_result:
  "ReaddirFailed \<notin> set dir \<Longrightarrow>
     getDirStats_loop dir fileCnt hfuzz
       = (True, fileCnt + of_nat (length (regular_sizes dir)),
          hfuzz\<lparr>mutate_maxInputSz := fold max (regular_sizes dir) (mutate_maxInputSz hfuzz)\<rparr>)"
proof (induction dir fileCnt hfuzz rule: getDirStats_loop.induct)
  case (6 name st_size es fileCnt hfuzz)
  then show ?case by (simp add: max_def not_less)
qed simp_all

lemma fold_max_Max:
  fixes m :: size_t
  shows "fold max xs m = Max (insert m (set xs))"
  using Max.set_eq_fold [of m xs] by simp

text \<open>
  Claim C8, as stated, fails: the scan never resets \<^verbatim>\<open>mutate.maxInputSz\<close>, so the running
  maximum starts from the value the state holds before the scan. With 9000 from an
  earlier scan and the three seeds of 10, 200 and 5000 bytes the result is 9000, not 5000.
\<close>

theorem input_getDirStatsAndRewind_counterexample:
  "io_maxFileSz (hfuzz_zero\<lparr>mutate_maxInputSz := 9000\<rparr>) = 0
   \<and> (1024 :: size_t) < 5000 \<and> (5000 :: size_t) < 134217728
   \<and> regular_sizes three_seeds = [10, 200, 5000]
   \<and> clamp_size 1024 134217728 (Max (set (regular_sizes three_seeds))) = 5000
   \<and> mutate_maxInputSz (snd (input_getDirStatsAndRewind 1024 134217728 three_seeds
        (hfuzz_zero\<lparr>mutate_maxInputSz := 9000\<rparr>))) = 9000
   \<and> mutate_maxInputSz (snd (input_getDirStatsAndRewind 1024 134217728 three_seeds
        (hfuzz_zero\<lparr>mutate_maxInputSz := 9000\<rparr>))) \<noteq> 5000"
  by (simp add: input_getDirStatsAndRewind_def hfuzz_zero_def three_seeds_def clamp_size_def)

text \<open>
  Claim C8, amended. After \<open>input_getDirStatsAndRewind\<close> over a directory that \<^verbatim>\<open>readdir\<close>
  reads without an error, the call returns \<^verbatim>\<open>true\<close>, \<^verbatim>\<open>fileCnt\<close> is the number of regular
  files, and \<^verbatim>\<open>maxInputSz\<close> is \<^verbatim>\<open>maxFileSz\<close> when that is not zero; otherwise it is the
  maximum of the previous \<^verbatim>\<open>maxInputSz\<close> and the observed regular-file sizes, clamped
  into \<open>[HF_INPUT_DEFAULT_SIZE, HF_INPUT_MAX_SIZE]\<close>. Where the previous value is at most
  one of the observed sizes, that is the maximum of the observed sizes, clamped. In
  particular, for three seeds of sizes 10, 200 and 5000 with \<^verbatim>\<open>maxFileSz = 0\<close>, a
  previous value of at most 5000 and \<open>HF_INPUT_DEFAULT_SIZE < 5000 < HF_INPUT_MAX_SIZE\<close>,
  the result is 5000.
\<close>

theorem input_getDirStatsAndRewind_maxInputSz:
  assumes "ReaddirFailed \<notin> set dir"
  shows "fst (input_getDirStatsAndRewind D M dir hfuzz)
    \<and> io_fileCnt (snd (input_getDirStatsAndRewind D M dir hfuzz))
         = of_nat (length (regular_sizes dir))
    \<and> mutate_maxInputSz (snd (input_getDirStatsAndRewind D M dir hfuzz))
         = (if io_maxFileSz hfuzz \<noteq> 0 then io_maxFileSz hfuzz
            else clamp_size D M
                   (Max (insert (mutate_maxInputSz hfuzz) (set (regular_sizes dir)))))
    \<and> ((\<exists>s \<in> set (regular_sizes dir). mutate_maxInputSz hfuzz \<le> s) \<longrightarrow>
          Max (insert (mutate_maxInputSz hfuzz) (set (regular_sizes dir)))
            = Max (set (regular_sizes dir)))
    \<and> (io_maxFileSz hfuzz = 0 \<and> D < 5000 \<and> 5000 < M \<and> mutate_maxInputSz hfuzz \<le> 5000
          \<and> regular_sizes dir = [10, 200, 5000] \<longrightarrow>
          mutate_maxInputSz (snd (input_getDirStatsAndRewind D M dir hfuzz)) = 5000)"
proof -
  note l = getDirStats_loop_result [OF assms, of 0 hfuzz]
  have r: "fst (input_getDirStatsAndRewind D M dir hfuzz)"
    and c: "io_fileCnt (snd (input_getDirStatsAndRewind D M dir hfuzz))
         = of_nat (length (regular_sizes dir))"
    by (simp_all add: input_getDirStatsAndRewind_def l Let_def)
  have m: "mutate_maxInputSz (snd (input_getDirStatsAndRewind D M dir hfuzz))
         = (if io_maxFileSz hfuzz \<noteq> 0 then io_maxFileSz hfuzz
            else clamp_size D M
                   (Max (insert (mutate_maxInputSz hfuzz) (set (regular_sizes dir)))))"
    by (simp add: input_getDirStatsAndRewind_def l Let_def clamp_size_def fold_max_Max)
  have x: "Max (insert (mutate_maxInputSz hfuzz) (set (regular_sizes dir)))
            = Max (set (regular_sizes dir))"
    if ex: "\<exists>s \<in> set (regular_sizes dir). mutate_maxInputSz hfuzz \<le> s"
  proof -
    obtain s where s: "s \<in> set (regular_sizes dir)" "mutate_maxInputSz hfuzz \<le> s"
      using ex by blast
    then have "mutate_maxInputSz hfuzz \<le> Max (set (regular_sizes dir))"
      by (meson List.finite_set Max_ge order_trans)
    moreover have "set (regular_sizes dir) \<noteq> {}" using s(1) by auto
    ultimately show ?thesis by (simp add: max_absorb2)
  qed
  have e: "mutate_maxInputSz (snd (input_getDirStatsAndRewind D M dir hfuzz)) = 5000"
    if "io_maxFileSz hfuzz = 0 \<and> D < 5000 \<and> 5000 < M \<and> mutate_maxInputSz hfuzz \<le> 5000
          \<and> regular_sizes dir = [10, 200, 5000]"
  proof -
    have "Max (insert (mutate_maxInputSz hfuzz) (set (regular_sizes dir))) = 5000"
      using that by (simp add: max_absorb2 max_absorb1)
    then show ?thesis using m that by (auto simp add: clamp_size_def)
  qed
  show ?thesis using r c m x e by blast
qed

theorem input_getDirStatsAndRewind_maxInputSz_witness:
  "ReaddirFailed \<notin> set three_seeds
   \<and> io_maxFileSz hfuzz_zero = 0 \<and> (1024 :: size_t) < 5000 \<and> (5000 :: size_t) < 134217728
   \<and> mutate_maxInputSz hfuzz_zero \<le> 5000
   \<and> regular_sizes three_seeds = [10, 200, 5000]
   \<and> (\<exists>s \<in> set (regular_sizes three_seeds). mutate_maxInputSz hfuzz_zero \<le> s)
   \<and> fst (input_getDirStatsAndRewind 1024 134217728 three_seeds hfuzz_zero)
   \<and> io_fileCnt (snd (input_getDirStatsAndRewind 1024 134217728 three_seeds hfuzz_zero)) = 3
   \<and> mutate_maxInputSz (snd (input_getDirStatsAndRewind 1024 134217728 three_seeds hfuzz_zero))
        = 5000
   \<and> io_maxFileSz (hfuzz_zero\<lparr>io_maxFileSz := 4096\<rparr>) \<noteq> 0
   \<and> mutate_maxInputSz (snd (input_getDirStatsAndRewind 1024 134217728 three_seeds
        (hfuzz_zero\<lparr>io_maxFileSz := 4096\<rparr>))) = 4096"
proof -
  have h: "ReaddirFailed \<notin> set three_seeds" by (simp add: three_seeds_def)
  have s: "regular_sizes three_seeds = [10, 200, 5000]" by (simp add: three_seeds_def)
  note t = input_getDirStatsAndRewind_maxInputSz [OF h, of 1024 134217728 hfuzz_zero]
  note u = input_getDirStatsAndRewind_maxInputSz [OF h, of 1024 134217728
      "hfuzz_zero\<lparr>io_maxFileSz := 4096\<rparr>"]
  have z: "io_maxFileSz hfuzz_zero = 0" "mutate_maxInputSz hfuzz_zero \<le> 5000"
    by (simp_all add: hfuzz_zero_def)
  have d: "(1024 :: size_t) < 5000" "(5000 :: size_t) < 134217728"
    by simp_all
  have "mutate_maxInputSz (snd (input_getDirStatsAndRewind 1024 134217728 three_seeds
          hfuzz_zero)) = 5000"
    using t z s d by blast
  moreover have "mutate_maxInputSz (snd (input_getDirStatsAndRewind 1024 134217728 three_seeds
        (hfuzz_zero\<lparr>io_maxFileSz := 4096\<rparr>))) = 4096"
    using u by simp
  moreover have "io_fileCnt (snd (input_getDirStatsAndRewind 1024 134217728 three_seeds
          hfuzz_zero)) = 3"
    using t s by simp
  moreover have "fst (input_getDirStatsAndRewind 1024 134217728 three_seeds hfuzz_zero)"
    using t by simp
  ultimately show ?thesis using h s z d by simp
qed

subsection \<open>The coverage file writer\<close>

lemma length_printf_0x: "length (printf_0x w v) = w"
  by (simp add: printf_0x_def)

lemma printf_0x_Suc:
  "printf_0x (Suc w) v = hex_digit ((v div 16 ^ w) mod 16) # printf_0x w v"
  by (simp add: printf_0x_def)

lemma hex_val_hex_digit: "d < 16 \<Longrightarrow> hex_val (hex_digit d) = Some d"
proof -
  have "\<forall>d \<in> set [0..<16]. hex_val (hex_digit d) = Some d"
    by (simp add: upt_rec hex_digit_def hex_val_def)
  then show "d < 16 \<Longrightarrow> hex_val (hex_digit d) = Some d" by simp
qed

text \<open>
  Reading the digits back, as \<open>strtoull_digits\<close> does, gives the value: the digits
  determine the printed number.
\<close>

lemma strtoull_digits_printf_0x:
  "strtoull_digits acc (printf_0x w v) = acc * 16 ^ w + v mod 16 ^ w"
proof (induction w arbitrary: acc)
  case 0
  then show ?case by (simp add: printf_0x_def)
next
  case (Suc w)
  have "v mod 16 ^ Suc w = 16 ^ w * (v div 16 ^ w mod 16) + v mod 16 ^ w"
    using mod_mult2_eq [of v "16 ^ w" 16] by (simp add: mult.commute)
  then show ?case
    by (simp add: printf_0x_Suc hex_val_hex_digit Suc.IH algebra_simps)
qed

lemma printf_0x_uint64: "strtoull_digits 0 (printf_0x 16 (unat (x :: uint64_t))) = unat x"
proof -
  have "unat x < 2 ^ 64" using unsigned_less [of x] by simp
  then have "unat x < 16 ^ 16" by simp
  then show ?thesis by (simp add: strtoull_digits_printf_0x)
qed

lemma printf_0x_uint32: "strtoull_digits 0 (printf_0x 8 (unat (x :: uint32_t))) = unat x"
proof -
  have "unat x < 2 ^ 32" using unsigned_less [of x] by simp
  then have "unat x < 16 ^ 8" by simp
  then show ?thesis by (simp add: strtoull_digits_printf_0x)
qed

lemma covFile_fname_fits:
  assumes "length dir + 56 < PATH_MAX"
  shows "covFile_fname c1 c2 dir buf len
    = dir @ ''/'' @ printf_0x 16 (unat (c1 (take (unat len) buf)))
        @ printf_0x 16 (unat (c2 (take (unat len) buf))) @ ''.''
        @ printf_0x 8 (unat (ucast len :: uint32_t)) @ ''.honggfuzz.cov''"
  using assms by (simp add: covFile_fname_def Let_def length_printf_0x)

lemma length_covFile_fname: "length (covFile_fname c1 c2 dir buf len) < PATH_MAX"
  by (simp add: covFile_fname_def Let_def PATH_MAX_def)

lemma covFile_fname_cut:
  assumes "length dir + 6 = PATH_MAX"
  shows "covFile_fname c1 c2 dir buf len
           = dir @ ''/'' @ take 4 (printf_0x 16 (unat (c1 (take (unat len) buf))))"
proof -
  have n: "PATH_MAX - 1 - length dir = Suc 4" and m: "length dir \<le> PATH_MAX - 1"
    using assms by simp_all
  show ?thesis
    unfolding covFile_fname_def Let_def
    by (simp only: take_append n take_all [OF m] append_Cons append_Nil take_Suc_Cons)
      (simp add: length_printf_0x)
qed

lemma printf_0x_16_zero: "printf_0x 16 0 = ''0000000000000000''"
  by (simp add: printf_0x_def hex_digit_def upt_rec)

text \<open>
  Claim C7, as stated, fails for a long directory name: \<^verbatim>\<open>snprintf\<close> cuts the name to the
  \<open>PATH_MAX - 1\<close> characters that \<^verbatim>\<open>fname\<close> holds. For a directory name of 4090 characters
  the file name is the directory, the slash and four digits.
\<close>

theorem covFile_fname_counterexample:
  "covFile_fname crc_zero crc_zero (replicate 4090 (CHR ''d'')) [] 0
     = replicate 4090 (CHR ''d'') @ ''/0000''
   \<and> covFile_fname crc_zero crc_zero (replicate 4090 (CHR ''d'')) [] 0
     \<noteq> replicate 4090 (CHR ''d'') @ ''/'' @ printf_0x 16 (unat (crc_zero []))
          @ printf_0x 16 (unat (crc_zero [])) @ ''.''
          @ printf_0x 8 (unat (ucast (0 :: size_t) :: uint32_t)) @ ''.honggfuzz.cov''"
proof -
  have l: "length (replicate 4090 (CHR ''d'')) + 6 = PATH_MAX"
    by (simp add: PATH_MAX_def)
  have a: "covFile_fname crc_zero crc_zero (replicate 4090 (CHR ''d'')) [] 0
     = replicate 4090 (CHR ''d'') @ ''/0000''"
    unfolding covFile_fname_cut [OF l]
    by (simp add: crc_zero_def printf_0x_16_zero)
  have "length (covFile_fname crc_zero crc_zero (replicate 4090 (CHR ''d'')) [] 0)
     \<noteq> length (replicate 4090 (CHR ''d'') @ ''/'' @ printf_0x 16 (unat (crc_zero []))
          @ printf_0x 16 (unat (crc_zero [])) @ ''.''
          @ printf_0x 8 (unat (ucast (0 :: size_t) :: uint32_t)) @ ''.honggfuzz.cov'')"
    unfolding a by (simp add: length_printf_0x)
  then show ?thesis using a by auto
qed

lemma input_writeCovFile_exists:
  "files_exists f (covFile_fname c1 c2 dir buf len) \<Longrightarrow>
     input_writeCovFile c1 c2 f dir buf len = (True, f)"
  by (simp add: input_writeCovFile_def Let_def)

lemma input_writeCovFile_retry:
  assumes "fst (input_writeCovFile c1 c2 f dir buf len)"
  shows "input_writeCovFile c1 c2 (snd (input_writeCovFile c1 c2 f dir buf len)) dir buf len
           = (True, snd (input_writeCovFile c1 c2 f dir buf len))"
proof (cases "files_exists f (covFile_fname c1 c2 dir buf len)")
  case True
  then show ?thesis by (simp add: input_writeCovFile_exists)
next
  case False
  then have "files_exists (snd (input_writeCovFile c1 c2 f dir buf len))
               (covFile_fname c1 c2 dir buf len)"
    using assms
    by (auto simp add: input_writeCovFile_def files_writeBufToFile_def files_exists_def Let_def
        split: if_splits)
  then show ?thesis by (rule input_writeCovFile_exists)
qed

text \<open>
  Claim C7, amended. For every directory name short enough for the whole name to fit
  into \<^verbatim>\<open>fname\<close> (\<open>length dir + 56 < PATH_MAX\<close>), the file name is the directory, a slash,
  the 16 hexadecimal digits of \<^verbatim>\<open>util_CRC64\<close> of the \<open>len\<close> bytes, the 16 digits of
  \<^verbatim>\<open>util_CRC64Rev\<close>, a dot, the 8 digits of \<open>len\<close> modulo \<open>2 ^ 32\<close> and \<^verbatim>\<open>.honggfuzz.cov\<close>; the
  digits read back to the numbers they print. For every directory name the file name
  is shorter than \<open>PATH_MAX\<close> and is the same for two buffers with the same first \<open>len\<close>
  bytes. If a file with the name
  exists, the call returns \<^verbatim>\<open>true\<close> and leaves the file system as it is; so does a second
  call after a call that returned \<^verbatim>\<open>true\<close>.
\<close>

theorem input_writeCovFile_contract:
  "(length dir + 56 < PATH_MAX \<longrightarrow>
      covFile_fname c1 c2 dir buf len
        = dir @ ''/'' @ printf_0x 16 (unat (c1 (take (unat len) buf)))
            @ printf_0x 16 (unat (c2 (take (unat len) buf))) @ ''.''
            @ printf_0x 8 (unat (ucast len :: uint32_t)) @ ''.honggfuzz.cov'')
   \<and> (\<forall>x :: uint64_t. length (printf_0x 16 (unat x)) = 16
         \<and> strtoull_digits 0 (printf_0x 16 (unat x)) = unat x)
   \<and> length (printf_0x 8 (unat (ucast len :: uint32_t))) = 8
   \<and> strtoull_digits 0 (printf_0x 8 (unat (ucast len :: uint32_t))) = unat len mod 2 ^ 32
   \<and> length (covFile_fname c1 c2 dir buf len) < PATH_MAX
   \<and> (take (unat len) buf' = take (unat len) buf \<longrightarrow>
         covFile_fname c1 c2 dir buf' len = covFile_fname c1 c2 dir buf len)
   \<and> (files_exists f (covFile_fname c1 c2 dir buf len) \<longrightarrow>
         input_writeCovFile c1 c2 f dir buf len = (True, f))
   \<and> (fst (input_writeCovFile c1 c2 f dir buf len) \<longrightarrow>
         input_writeCovFile c1 c2 (snd (input_writeCovFile c1 c2 f dir buf len)) dir buf len
           = (True, snd (input_writeCovFile c1 c2 f dir buf len)))"
proof -
  have "unat (ucast len :: uint32_t) = unat len mod 2 ^ 32"
    by (simp add: unsigned_ucast_eq take_bit_eq_mod)
  then have l: "strtoull_digits 0 (printf_0x 8 (unat (ucast len :: uint32_t)))
                  = unat len mod 2 ^ 32"
    using printf_0x_uint32 [of "ucast len"] by simp
  have d: "take (unat len) buf' = take (unat len) buf \<Longrightarrow>
         covFile_fname c1 c2 dir buf' len = covFile_fname c1 c2 dir buf len"
    by (simp add: covFile_fname_def)
  show ?thesis
    using covFile_fname_fits [of dir c1 c2 buf len] printf_0x_uint64 l d
      length_covFile_fname [of c1 c2 dir buf len]
      input_writeCovFile_exists [of f c1 c2 dir buf len]
      input_writeCovFile_retry [of c1 c2 f dir buf len]
    by (simp add: length_printf_0x)
qed

theorem input_writeCovFile_contract_witness:
  "length ''out'' + 56 < PATH_MAX
   \<and> covFile_fname (\<lambda>_. 0x0123456789abcdef) crc_zero ''out'' [1, 2, 3] 3
        = ''out/0123456789abcdef0000000000000000.00000003.honggfuzz.cov''
   \<and> fst (input_writeCovFile (\<lambda>_. 0x0123456789abcdef) crc_zero (fs hfuzz_zero) ''out''
        [1, 2, 3] 3)
   \<and> files_exists (snd (input_writeCovFile (\<lambda>_. 0x0123456789abcdef) crc_zero (fs hfuzz_zero)
        ''out'' [1, 2, 3] 3)) ''out/0123456789abcdef0000000000000000.00000003.honggfuzz.cov''
   \<and> input_writeCovFile (\<lambda>_. 0x0123456789abcdef) crc_zero
        (snd (input_writeCovFile (\<lambda>_. 0x0123456789abcdef) crc_zero (fs hfuzz_zero) ''out''
           [1, 2, 3] 3)) ''out'' [1, 2, 3] 3
        = (True, snd (input_writeCovFile (\<lambda>_. 0x0123456789abcdef) crc_zero (fs hfuzz_zero)
           ''out'' [1, 2, 3] 3))"
proof -
  let ?c = "\<lambda>_ :: uint8_t list. 0x0123456789abcdef :: uint64_t"
  note t = input_writeCovFile_contract [of "''out''" ?c crc_zero "[1, 2, 3]" 3 "[1, 2, 3]"
      "fs hfuzz_zero"]
  have fit: "length ''out'' + 56 < PATH_MAX" by (simp add: PATH_MAX_def)
  have p1: "printf_0x 16 0x0123456789abcdef = ''0123456789abcdef''"
    by (simp add: printf_0x_def hex_digit_def upt_rec)
  have p2: "printf_0x 8 3 = ''00000003''"
    by (simp add: printf_0x_def hex_digit_def upt_rec)
  have n: "covFile_fname ?c crc_zero ''out'' [1, 2, 3] 3
        = ''out/0123456789abcdef0000000000000000.00000003.honggfuzz.cov''"
    using t fit by (simp add: p1 p2 printf_0x_16_zero crc_zero_def)
  have w: "fst (input_writeCovFile ?c crc_zero (fs hfuzz_zero) ''out'' [1, 2, 3] 3)"
    and e: "files_exists (snd (input_writeCovFile ?c crc_zero (fs hfuzz_zero) ''out''
        [1, 2, 3] 3)) ''out/0123456789abcdef0000000000000000.00000003.honggfuzz.cov''"
    unfolding input_writeCovFile_def Let_def n
    by (simp_all add: files_exists_def files_writeBufToFile_def hfuzz_zero_def)
  have r: "input_writeCovFile ?c crc_zero
        (snd (input_writeCovFile ?c crc_zero (fs hfuzz_zero) ''out'' [1, 2, 3] 3)) ''out''
        [1, 2, 3] 3
        = (True, snd (input_writeCovFile ?c crc_zero (fs hfuzz_zero) ''out'' [1, 2, 3] 3))"
    using t w by blast
  show ?thesis using fit n w e r by blast
qed

subsection \<open>The blacklist parser\<close>

lemma strtoull16_examples:
  "strtoull16 ''0x10\<newline>'' = 0x10" "strtoull16 ''0x05\<newline>'' = 0x05"
  "strtoull16 ''0x20\<newline>'' = 0x20"
  by (simp_all add: strtoull16_def strtoull_sign_def strtoull_prefix_def hex_val_def
      isspace_c_def)

lemma getlines_examples:
  "getlines [] ''0x10\<newline>0x05\<newline>'' = [''0x10\<newline>'', ''0x05\<newline>'']"
  "getlines [] ''0x05\<newline>0x10\<newline>'' = [''0x05\<newline>'', ''0x10\<newline>'']"
  "getlines [] ''0x05\<newline>0x20\<newline>0x10\<newline>''
     = [''0x05\<newline>'', ''0x20\<newline>'', ''0x10\<newline>'']"
  by simp_all

text \<open>
  Claim C1 (the source departs from it). The source compares an entry with its
  predecessor only under \<^verbatim>\<open>blacklistCnt > 1\<close>, that is from the third entry on, so the first
  pair is never compared: the file with the two lines \<^verbatim>\<open>0x10\<close> and \<^verbatim>\<open>0x05\<close> is loaded
  without a fatal error, with the count 2 and the unsorted array.
\<close>

theorem input_parseBlacklist_unsorted_pair:
  "input_parseBlacklist (\<lambda>_. True) hfuzz_zero (Some ''0x10\<newline>0x05\<newline>'')
     = Inr (True, hfuzz_zero\<lparr>feedback_blacklist := [0x10, 0x05], feedback_blacklistCnt := 2\<rparr>)"
  by (simp add: input_parseBlacklist_def getlines_examples strtoull16_examples hfuzz_zero_def)

text \<open>
  The rest of the scenario holds: the sorted pair is loaded with the count 2, and an
  entry below its predecessor is fatal from the third line on.
\<close>

lemma input_parseBlacklist_sorted_pair:
  "input_parseBlacklist (\<lambda>_. True) hfuzz_zero (Some ''0x05\<newline>0x10\<newline>'')
     = Inr (True, hfuzz_zero\<lparr>feedback_blacklist := [0x05, 0x10], feedback_blacklistCnt := 2\<rparr>)"
  by (simp add: input_parseBlacklist_def getlines_examples strtoull16_examples hfuzz_zero_def)

lemma input_parseBlacklist_unsorted_third:
  "input_parseBlacklist (\<lambda>_. True) hfuzz_zero (Some ''0x05\<newline>0x20\<newline>0x10\<newline>'')
     = Inl Fatal"
  by (simp add: input_parseBlacklist_def getlines_examples strtoull16_examples hfuzz_zero_def)

text \<open>
  The part of the claim that the source keeps: a file whose values are in ascending
  order is loaded into an empty blacklist, with the number of its lines as the count.
\<close>

lemma unat_of_nat_size_t: "n < 2 ^ 64 \<Longrightarrow> unat (of_nat n :: size_t) = n"
  by (simp add: unat_of_nat)

lemma parseBlacklist_loop_sorted:
  assumes "feedback_blacklistCnt hfuzz = of_nat (length (feedback_blacklist hfuzz))"
    and "length (feedback_blacklist hfuzz) + length ls < 2 ^ 64"
    and "sorted (feedback_blacklist hfuzz @ map strtoull16 ls)"
  shows "parseBlacklist_loop (\<lambda>_. True) hfuzz ls
    = Inr (True, hfuzz\<lparr>feedback_blacklist := feedback_blacklist hfuzz @ map strtoull16 ls,
             feedback_blacklistCnt := of_nat (length (feedback_blacklist hfuzz) + length ls)\<rparr>)"
  using assms
proof (induction ls arbitrary: hfuzz)
  case Nil
  then show ?case by (cases hfuzz) simp
next
  case (Cons l ls)
  let ?bl = "feedback_blacklist hfuzz"
  let ?n = "length ?bl"
  let ?v = "strtoull16 l"
  let ?h = "hfuzz\<lparr>feedback_blacklist := ?bl @ [?v],
              feedback_blacklistCnt := feedback_blacklistCnt hfuzz + 1\<rparr>"
  have n: "?n < 2 ^ 64" using Cons.prems(2) by simp
  have u: "unat (feedback_blacklistCnt hfuzz) = ?n"
    using Cons.prems(1) n by (simp add: unat_of_nat_size_t)
  have ok: "\<not> (feedback_blacklistCnt hfuzz > 1
      \<and> (?bl @ [?v]) ! unat (feedback_blacklistCnt hfuzz - 1)
          > (?bl @ [?v]) ! unat (feedback_blacklistCnt hfuzz))"
  proof
    assume a: "feedback_blacklistCnt hfuzz > 1
      \<and> (?bl @ [?v]) ! unat (feedback_blacklistCnt hfuzz - 1)
          > (?bl @ [?v]) ! unat (feedback_blacklistCnt hfuzz)"
    then have n1: "1 < ?n" using u by (simp add: word_less_nat_alt)
    have "feedback_blacklistCnt hfuzz \<noteq> 0" using a by auto
    then have m: "unat (feedback_blacklistCnt hfuzz - 1) = ?n - 1"
      using u unat_minus_one [of "feedback_blacklistCnt hfuzz"] by simp
    have "?n - 1 < ?n" using n1 by arith
    then have i1: "(?bl @ [?v]) ! (?n - 1) = ?bl ! (?n - 1)"
      by (simp only: nth_append if_True)
    have i2: "(?bl @ [?v]) ! ?n = ?v" by simp
    have "?bl ! (?n - 1) > ?v"
      using a unfolding m u i1 i2 by simp
    moreover have "?bl ! (?n - 1) \<in> set ?bl"
      using \<open>?n - 1 < ?n\<close> by (rule nth_mem)
    moreover have "\<forall>x \<in> set ?bl. x \<le> ?v"
      using Cons.prems(3) by (simp add: sorted_append)
    ultimately show False by force
  qed
  have "parseBlacklist_loop (\<lambda>_. True) ?h ls
    = Inr (True, ?h\<lparr>feedback_blacklist := feedback_blacklist ?h @ map strtoull16 ls,
             feedback_blacklistCnt := of_nat (length (feedback_blacklist ?h) + length ls)\<rparr>)"
    using Cons.prems by (intro Cons.IH) simp_all
  then show ?case using ok u by (simp add: Let_def)
qed

lemma input_parseBlacklist_sorted:
  assumes "feedback_blacklist hfuzz = []" and "feedback_blacklistCnt hfuzz = 0"
    and "getlines [] content \<noteq> []" and "length (getlines [] content) < 2 ^ 64"
    and "sorted (map strtoull16 (getlines [] content))"
  shows "input_parseBlacklist (\<lambda>_. True) hfuzz (Some content)
    = Inr (True, hfuzz\<lparr>feedback_blacklist := map strtoull16 (getlines [] content),
             feedback_blacklistCnt := of_nat (length (getlines [] content))\<rparr>)"
proof -
  have "parseBlacklist_loop (\<lambda>_. True) hfuzz (getlines [] content)
    = Inr (True, hfuzz\<lparr>feedback_blacklist := map strtoull16 (getlines [] content),
             feedback_blacklistCnt := of_nat (length (getlines [] content))\<rparr>)"
    using parseBlacklist_loop_sorted [of hfuzz "getlines [] content"] assms by simp
  moreover have "unat (of_nat (length (getlines [] content)) :: size_t) \<noteq> 0"
    using assms(3,4) by (simp add: unat_of_nat_size_t)
  then have "(of_nat (length (getlines [] content)) :: size_t) \<noteq> 0"
    by auto
  ultimately show ?thesis
    by (simp add: input_parseBlacklist_def word_greater_zero_iff)
qed

end
